theory Spec2Isabelle
  imports Main "HOL-Library.AList" "HOL-Library.Sublist"
begin

section \<open>ClickUp image downloader: the data model\<close>

text \<open>
  The development follows \<^verbatim>\<open>clickup_get_images.py\<close>. Paths of downloaded files are kept
  relative to \<^verbatim>\<open>OUT_DIR\<close>, as the keys of the metadata store are
  (\<^verbatim>\<open>str(file_path.relative_to(OUT_DIR))\<close>); space, list and file names are taken to be plain
  path components. A file on disk is represented by its size in bytes, the only thing the
  program reads back from it.
\<close>

type_synonym path = string

text \<open>
  The exceptions that the modelled code can raise. The first three are subclasses of
  \<^verbatim>\<open>requests.exceptions.RequestException\<close>; the others are not. \<^verbatim>\<open>JSONDecodeError\<close> is the
  one of \<^verbatim>\<open>json\<close>.
\<close>

datatype exn =
    HTTPError nat
  | ConnectionError string
  | ChunkedEncodingError string
  | ValueError string
  | KeyError string
  | TypeError string
  | OSError string
  | JSONDecodeError
  | IOError
  | UnicodeDecodeError
  | RecursionError

fun is_request_exception :: "exn \<Rightarrow> bool" where
  "is_request_exception (HTTPError _) = True"
| "is_request_exception (ConnectionError _) = True"
| "is_request_exception (ChunkedEncodingError _) = True"
| "is_request_exception (ValueError _) = False"
| "is_request_exception (KeyError _) = False"
| "is_request_exception (TypeError _) = False"
| "is_request_exception (OSError _) = False"
| "is_request_exception JSONDecodeError = False"
| "is_request_exception IOError = False"
| "is_request_exception UnicodeDecodeError = False"
| "is_request_exception RecursionError = False"

text \<open>
  A ledger file of a state is absent, unreadable (\<^verbatim>\<open>open\<close> raises \<^verbatim>\<open>IOError\<close>), text that
  \<^verbatim>\<open>json.load\<close> rejects with \<^verbatim>\<open>JSONDecodeError\<close>, or a value of the shape the program itself
  writes. These are the files on which the loaders return. The files on which they raise
  are not files of a state; the loaders are modelled on them too, on \<open>file_content\<close> below.
\<close>

datatype 'a ledger_file = Missing | Unreadable | Corrupt | Valid 'a

text \<open>
  The values of the metadata store and the entries of the failed-download log. The log
  keeps the exception where the source keeps its message \<^verbatim>\<open>str(e)\<close>.
\<close>

record stored_info =
  si_url :: string
  si_size :: nat
  downloaded_at :: nat

record failed_info =
  fd_url :: string
  fd_dest :: path
  fd_error :: exn
  failed_at :: nat

text \<open>
  What the program does to the outside world, in order: requests to the API, streamed
  requests for a file, sleeps of \<^verbatim>\<open>RATE_DELAY\<close>, and the console lines of the processing
  loop.
\<close>

datatype endpoint =
    Spaces
  | Lists string
  | Folders string
  | Tasks string nat
  | Task string

datatype event =
    Api_get endpoint
  | File_get string
  | Sleep
  | Downloading string
  | Failed_to_download string
  | Skipping_duplicate string
  | Error_processing_task string exn

text \<open>
  The state: the files under \<^verbatim>\<open>OUT_DIR\<close>, the three ledger files, a clock that counts
  elapsed rate delays (read by \<^verbatim>\<open>time.time()\<close>), the events so far, and the two counters of
  \<^verbatim>\<open>main\<close>.
\<close>

record state =
  files :: "path \<rightharpoonup> nat"
  metadata_file :: "(path \<rightharpoonup> stored_info) ledger_file"
  failed_downloads_file :: "failed_info list ledger_file"
  processed_tasks_file :: "string set ledger_file"
  clock :: nat
  trace :: "event list"
  total_imgs :: nat
  failed_downloads :: nat

definition sleeps :: "event list \<Rightarrow> nat" where
  "sleeps evs = length (filter (\<lambda>e. e = Sleep) evs)"

definition emit :: "event list \<Rightarrow> state \<Rightarrow> state" where
  "emit evs w = w\<lparr>trace := trace w @ evs, clock := clock w + sleeps evs\<rparr>"

definition sleep :: "state \<Rightarrow> state" where
  "sleep w = emit [Sleep] w"

section \<open>The resume ledger\<close>

fun load_metadata_file :: "(path \<rightharpoonup> stored_info) ledger_file \<Rightarrow> (path \<rightharpoonup> stored_info)" where
  "load_metadata_file Missing = Map.empty"
| "load_metadata_file Unreadable = Map.empty"
| "load_metadata_file Corrupt = Map.empty"
| "load_metadata_file (Valid m) = m"

definition load_metadata :: "state \<Rightarrow> (path \<rightharpoonup> stored_info)" where
  "load_metadata w = load_metadata_file (metadata_file w)"

definition save_metadata :: "(path \<rightharpoonup> stored_info) \<Rightarrow> state \<Rightarrow> state" where
  "save_metadata metadata w = w\<lparr>metadata_file := Valid metadata\<rparr>"

text \<open>
  \<^verbatim>\<open>is_duplicate\<close>: the size check is guarded by the truth value of \<^verbatim>\<open>expected_size\<close>, which
  is false for \<^verbatim>\<open>None\<close> and for \<^verbatim>\<open>0\<close>.
\<close>

definition truthy_size :: "nat option \<Rightarrow> bool" where
  "truthy_size e = (case e of None \<Rightarrow> False | Some n \<Rightarrow> n \<noteq> 0)"

definition is_duplicate :: "state \<Rightarrow> path \<Rightarrow> string \<Rightarrow> nat option \<Rightarrow> bool" where
  "is_duplicate w file_path url expected_size =
     (case files w file_path of
        None \<Rightarrow> False
      | Some st_size \<Rightarrow>
          if truthy_size expected_size \<and> Some st_size \<noteq> expected_size then False
          else (case load_metadata w file_path of
                  None \<Rightarrow> False
                | Some stored_info \<Rightarrow>
                    si_url stored_info = url \<and> files w file_path \<noteq> None
                    \<and> Some (si_size stored_info) = files w file_path))"

definition record_download :: "path \<Rightarrow> string \<Rightarrow> nat \<Rightarrow> state \<Rightarrow> state" where
  "record_download file_path url sz w =
     save_metadata ((load_metadata w)(file_path \<mapsto>
        \<lparr>si_url = url, si_size = sz, downloaded_at = clock w\<rparr>)) w"

fun load_failed_downloads_file :: "failed_info list ledger_file \<Rightarrow> failed_info list" where
  "load_failed_downloads_file Missing = []"
| "load_failed_downloads_file Unreadable = []"
| "load_failed_downloads_file Corrupt = []"
| "load_failed_downloads_file (Valid l) = l"

definition load_failed_downloads :: "state \<Rightarrow> failed_info list" where
  "load_failed_downloads w = load_failed_downloads_file (failed_downloads_file w)"

definition log_failed_download :: "string \<Rightarrow> path \<Rightarrow> exn \<Rightarrow> state \<Rightarrow> state" where
  "log_failed_download url dest error w =
     w\<lparr>failed_downloads_file := Valid (load_failed_downloads w @
        [\<lparr>fd_url = url, fd_dest = dest, fd_error = error, failed_at = clock w\<rparr>])\<rparr>"

fun load_processed_tasks_file :: "string set ledger_file \<Rightarrow> string set" where
  "load_processed_tasks_file Missing = {}"
| "load_processed_tasks_file Unreadable = {}"
| "load_processed_tasks_file Corrupt = {}"
| "load_processed_tasks_file (Valid s) = s"

definition load_processed_tasks :: "state \<Rightarrow> string set" where
  "load_processed_tasks w = load_processed_tasks_file (processed_tasks_file w)"

definition mark_task_processed :: "string \<Rightarrow> state \<Rightarrow> state" where
  "mark_task_processed task_id w =
     w\<lparr>processed_tasks_file := Valid (insert task_id (load_processed_tasks w))\<rparr>"

subsection \<open>The loaders on any file\<close>

text \<open>
  What a loader can find at the path of its file: nothing, a file that cannot be opened or
  read, bytes that do not decode as text (\<^verbatim>\<open>UnicodeDecodeError\<close>, a \<^verbatim>\<open>ValueError\<close> that is not a
  \<^verbatim>\<open>JSONDecodeError\<close>), text nested deeper than the parser can follow (\<^verbatim>\<open>RecursionError\<close>),
  other text that is not JSON, or a JSON value.
\<close>

datatype 'a file_content =
    Absent
  | Cannot_open
  | Undecodable
  | Over_nested
  | Invalid_json
  | Json 'a

text \<open>\<^verbatim>\<open>with open(FILE, 'r') as f: json.load(f)\<close>\<close>

fun json_load :: "'a file_content \<Rightarrow> exn + 'a" where
  "json_load Absent = Inl IOError"
| "json_load Cannot_open = Inl IOError"
| "json_load Undecodable = Inl UnicodeDecodeError"
| "json_load Over_nested = Inl RecursionError"
| "json_load Invalid_json = Inl JSONDecodeError"
| "json_load (Json v) = Inr v"

text \<open>\<^verbatim>\<open>except (json.JSONDecodeError, IOError)\<close>\<close>

definition caught_by_load :: "exn \<Rightarrow> bool" where
  "caught_by_load e \<longleftrightarrow> e = JSONDecodeError \<or> e = IOError"

definition load_metadata_from ::
  "(path \<rightharpoonup> stored_info) file_content \<Rightarrow> exn + (path \<rightharpoonup> stored_info)" where
  "load_metadata_from c =
     (if c \<noteq> Absent then
        (case json_load c of
           Inr v \<Rightarrow> Inr v
         | Inl e \<Rightarrow> if caught_by_load e then Inr Map.empty else Inl e)
      else Inr Map.empty)"

definition load_failed_downloads_from ::
  "failed_info list file_content \<Rightarrow> exn + failed_info list" where
  "load_failed_downloads_from c =
     (if c \<noteq> Absent then
        (case json_load c of
           Inr v \<Rightarrow> Inr v
         | Inl e \<Rightarrow> if caught_by_load e then Inr [] else Inl e)
      else Inr [])"

text \<open>
  The processed-task file holds a JSON list of task ids, or a JSON value on which \<^verbatim>\<open>set\<close>
  raises \<^verbatim>\<open>TypeError\<close>; \<^verbatim>\<open>set(json.load(f))\<close> is inside the \<^verbatim>\<open>try\<close> block.
\<close>

datatype json_tasks = Task_ids "string list" | Not_iterable

definition py_set :: "json_tasks \<Rightarrow> exn + string set" where
  "py_set v = (case v of Task_ids l \<Rightarrow> Inr (set l) | Not_iterable \<Rightarrow> Inl (TypeError ''set''))"

definition load_processed_tasks_from :: "json_tasks file_content \<Rightarrow> exn + string set" where
  "load_processed_tasks_from c =
     (if c \<noteq> Absent then
        (case (case json_load c of Inl e \<Rightarrow> Inl e | Inr v \<Rightarrow> py_set v) of
           Inr s \<Rightarrow> Inr s
         | Inl e \<Rightarrow> if caught_by_load e then Inr {} else Inl e)
      else Inr {})"

text \<open>The ledger file of a state that a file stands for, when the loaders return on it.\<close>

fun ledger_of :: "'a file_content \<Rightarrow> 'a ledger_file option" where
  "ledger_of Absent = Some Missing"
| "ledger_of Cannot_open = Some Unreadable"
| "ledger_of Invalid_json = Some Corrupt"
| "ledger_of (Json v) = Some (Valid v)"
| "ledger_of Undecodable = None"
| "ledger_of Over_nested = None"

section \<open>The remote side\<close>

text \<open>
  What the API answers to each request: an exception raised by \<^verbatim>\<open>api_get\<close>, or the fields
  of the JSON body that the program reads. An optional field is \<open>None\<close> when the key is
  absent. A task of a listing is its \<^verbatim>\<open>id\<close>.
\<close>

record lst =
  lst_id :: string
  lst_name :: string

record page =
  tasks :: "string list option"
  last_page :: "bool option"

record attachment =
  mimetype :: "string option"
  title :: "string option"
  filename :: "string option"
  att_url :: "string option"

text \<open>
  The answer to the streamed request of \<^verbatim>\<open>download\<close>: the request itself fails, or there is
  a response with a status, possibly a \<^verbatim>\<open>content-length\<close> header, the sizes of the chunks
  that arrive, and possibly an exception that ends the stream after them.
\<close>

record response =
  status :: nat
  content_length :: "string option"
  chunks :: "nat list"
  stream_error :: "exn option"

datatype reply = No_response exn | Reply response

record remote =
  get_space_r :: "exn + (string \<times> string) list"
  get_list_r :: "string \<Rightarrow> exn + lst list option"
  get_folder_r :: "string \<Rightarrow> exn + (lst list option) list option"
  get_task_page_r :: "string \<Rightarrow> nat \<Rightarrow> exn + page"
  get_task_r :: "string \<Rightarrow> exn + attachment list option"
  get_file_r :: "string \<Rightarrow> reply"

section \<open>The download engine\<close>

text \<open>
  \<^verbatim>\<open>int(content_length)\<close> on a header value: surrounding whitespace is stripped, a sign may
  come first, then decimal digits with single underscores between them.
\<close>

definition py_isspace :: "char \<Rightarrow> bool" where
  "py_isspace c = ((of_char c :: nat) \<in> {9, 10, 11, 12, 13, 28, 29, 30, 31, 32, 133, 160})"

definition py_strip :: "string \<Rightarrow> string" where
  "py_strip s = rev (dropWhile py_isspace (rev (dropWhile py_isspace s)))"

definition is_digit :: "char \<Rightarrow> bool" where
  "is_digit c = (48 \<le> (of_char c :: nat) \<and> (of_char c :: nat) \<le> 57)"

fun digits_ok :: "string \<Rightarrow> bool" where
  "digits_ok [] = True"
| "digits_ok [c] = is_digit c"
| "digits_ok (c # d # ds) =
     (if is_digit c then digits_ok (d # ds)
      else c = CHR ''_'' \<and> is_digit d \<and> digits_ok ds)"

definition digits_value :: "string \<Rightarrow> int" where
  "digits_value s = foldl (\<lambda>acc c. 10 * acc + (int (of_char c) - 48)) 0 (filter is_digit s)"

definition py_int :: "string \<Rightarrow> exn + int" where
  "py_int s =
     (let t = py_strip s;
          neg = (case t of [] \<Rightarrow> False | c # _ \<Rightarrow> c = CHR ''-'');
          body = (case t of [] \<Rightarrow> [] | c # r \<Rightarrow> if c = CHR ''-'' \<or> c = CHR ''+'' then r else t)
      in case body of
           [] \<Rightarrow> Inl (ValueError s)
         | d # r \<Rightarrow>
             if is_digit d \<and> digits_ok r
             then Inr (if neg then - digits_value body else digits_value body)
             else Inl (ValueError s))"

text \<open>\<^verbatim>\<open>expected_size = int(content_length) if content_length else None\<close>\<close>

definition expected_size_of :: "string option \<Rightarrow> exn + int option" where
  "expected_size_of header =
     (case header of
        None \<Rightarrow> Inr None
      | Some s \<Rightarrow> if s = [] then Inr None
                  else (case py_int s of Inl e \<Rightarrow> Inl e | Inr n \<Rightarrow> Inr (Some n)))"

text \<open>
  The body of the \<^verbatim>\<open>try\<close> block of \<^verbatim>\<open>download\<close>. \<^verbatim>\<open>raise_for_status\<close> raises for a status
  from 400 to 599. Opening the destination for writing creates or truncates it, and every
  chunk that arrives is written before the stream can fail. The size recorded is the one
  read back from the file (\<^verbatim>\<open>dest.stat().st_size\<close>).
\<close>

definition download_try :: "remote \<Rightarrow> string \<Rightarrow> path \<Rightarrow> state \<Rightarrow> (exn + bool) \<times> state" where
  "download_try rem url dest w0 =
     (let w = emit [File_get url] w0 in
      case get_file_r rem url of
        No_response e \<Rightarrow> (Inl e, w)
      | Reply r \<Rightarrow>
          if 400 \<le> status r \<and> status r < 600 then (Inl (HTTPError (status r)), w)
          else (case expected_size_of (content_length r) of
                  Inl e \<Rightarrow> (Inl e, w)
                | Inr expected_size \<Rightarrow>
                    let w1 = w\<lparr>files := (files w)(dest \<mapsto> 0)\<rparr>;
                        w2 = w1\<lparr>files := (files w1)(dest \<mapsto> sum_list (chunks r))\<rparr>
                    in (case stream_error r of
                          Some e \<Rightarrow> (Inl e, w2)
                        | None \<Rightarrow>
                            (case files w2 dest of
                               None \<Rightarrow> (Inl (OSError dest), w2)
                             | Some actual_size \<Rightarrow>
                                 (Inr True, record_download dest url actual_size w2)))))"

text \<open>The handler of \<^verbatim>\<open>except requests.exceptions.RequestException as e\<close>.\<close>

definition download_except :: "string \<Rightarrow> path \<Rightarrow> exn \<Rightarrow> state \<Rightarrow> (exn + bool) \<times> state" where
  "download_except url dest e w =
     (let w1 = log_failed_download url dest e w;
          w2 = (if files w1 dest \<noteq> None then w1\<lparr>files := (files w1)(dest := None)\<rparr> else w1)
      in (Inr False, w2))"

definition download :: "remote \<Rightarrow> string \<Rightarrow> path \<Rightarrow> state \<Rightarrow> (exn + bool) \<times> state" where
  "download rem url dest w =
     (case download_try rem url dest w of
        (Inl e, w') \<Rightarrow> if is_request_exception e then download_except url dest e w' else (Inl e, w')
      | (Inr b, w') \<Rightarrow> (Inr b, w'))"

section \<open>The hierarchy walker\<close>

text \<open>
  The walker reads nothing but the remote side. Each of its functions returns the events
  it causes together with its result; \<^verbatim>\<open>main\<close> adds them to the state.
\<close>

definition get_spaces :: "remote \<Rightarrow> event list \<times> (exn + (string \<times> string) list)" where
  "get_spaces rem =
     ([Api_get Spaces],
      case get_space_r rem of
        Inl e \<Rightarrow> Inl e
      | Inr data \<Rightarrow> Inr (foldl (\<lambda>d (i, n). AList.update i n d) [] data))"

definition get_or_empty :: "'a list option \<Rightarrow> 'a list" where
  "get_or_empty v = (case v of None \<Rightarrow> [] | Some xs \<Rightarrow> xs)"

definition get_folder_lists :: "remote \<Rightarrow> string \<Rightarrow> event list \<times> (exn + lst list)" where
  "get_folder_lists rem space_id =
     (case get_list_r rem space_id of
        Inl e \<Rightarrow> ([Api_get (Lists space_id)], Inl e)
      | Inr d \<Rightarrow>
          (case get_folder_r rem space_id of
             Inl e \<Rightarrow> ([Api_get (Lists space_id), Api_get (Folders space_id)], Inl e)
           | Inr fd \<Rightarrow>
               ([Api_get (Lists space_id), Api_get (Folders space_id)],
                Inr (get_or_empty d @ concat (map get_or_empty (get_or_empty fd))))))"

text \<open>
  \<^verbatim>\<open>iter_tasks\<close>, consumed by \<^verbatim>\<open>list(...)\<close>: the loop may run forever, which is the value
  \<open>None\<close>. An exception of \<^verbatim>\<open>api_get\<close> ends it and loses the tasks read so far.
  \<^verbatim>\<open>data.get("last_page", True)\<close> is true when the key is absent.
\<close>

definition is_last_page :: "page \<Rightarrow> bool" where
  "is_last_page data = (case last_page data of None \<Rightarrow> True | Some b \<Rightarrow> b)"

partial_function (option) iter_tasks ::
  "remote \<Rightarrow> string \<Rightarrow> nat \<Rightarrow> (event list \<times> (exn + string list)) option" where
  "iter_tasks rem list_id pg =
     (case get_task_page_r rem list_id pg of
        Inl e \<Rightarrow> Some ([Api_get (Tasks list_id pg)], Inl e)
      | Inr data \<Rightarrow>
          if is_last_page data
          then Some ([Api_get (Tasks list_id pg)], Inr (get_or_empty (tasks data)))
          else Option.bind (iter_tasks rem list_id (pg + 1))
                 (\<lambda>(evs, r). Some (Api_get (Tasks list_id pg) # Sleep # evs,
                    case r of Inl e \<Rightarrow> Inl e
                            | Inr ts \<Rightarrow> Inr (get_or_empty (tasks data) @ ts))))"

type_synonym entry = "string \<times> string \<times> lst \<times> string list"

fun count_lists ::
  "remote \<Rightarrow> string \<Rightarrow> string \<Rightarrow> lst list \<Rightarrow> (event list \<times> (exn + entry list)) option" where
  "count_lists rem sid sname [] = Some ([], Inr [])"
| "count_lists rem sid sname (l # ls) =
     (case iter_tasks rem (lst_id l) 0 of
        None \<Rightarrow> None
      | Some (evs, Inl e) \<Rightarrow> Some (evs, Inl e)
      | Some (evs, Inr ts) \<Rightarrow>
          (case count_lists rem sid sname ls of
             None \<Rightarrow> None
           | Some (evs', Inl e) \<Rightarrow> Some (evs @ evs', Inl e)
           | Some (evs', Inr es) \<Rightarrow> Some (evs @ evs', Inr ((sid, sname, l, ts) # es))))"

fun count_spaces ::
  "remote \<Rightarrow> (string \<times> string) list \<Rightarrow> (event list \<times> (exn + entry list)) option" where
  "count_spaces rem [] = Some ([], Inr [])"
| "count_spaces rem ((sid, sname) # ss) =
     (case get_folder_lists rem sid of
        (evs, Inl e) \<Rightarrow> Some (evs, Inl e)
      | (evs, Inr lsts) \<Rightarrow>
          (case count_lists rem sid sname lsts of
             None \<Rightarrow> None
           | Some (evs1, Inl e) \<Rightarrow> Some (evs @ evs1, Inl e)
           | Some (evs1, Inr es) \<Rightarrow>
               (case count_spaces rem ss of
                  None \<Rightarrow> None
                | Some (evs2, Inl e) \<Rightarrow> Some (evs @ evs1 @ evs2, Inl e)
                | Some (evs2, Inr es') \<Rightarrow> Some (evs @ evs1 @ evs2, Inr (es @ es')))))"

definition counting :: "remote \<Rightarrow> (event list \<times> (exn + entry list)) option" where
  "counting rem =
     (case get_spaces rem of
        (evs, Inl e) \<Rightarrow> Some (evs, Inl e)
      | (evs, Inr spaces) \<Rightarrow>
          (case count_spaces rem spaces of
             None \<Rightarrow> None
           | Some (evs', r) \<Rightarrow> Some (evs @ evs', r)))"

section \<open>The orchestrator\<close>

text \<open>\<^verbatim>\<open>fname = att.get("title") or att.get("filename")\<close>\<close>

definition fname_of :: "attachment \<Rightarrow> string option" where
  "fname_of att =
     (case title att of
        None \<Rightarrow> filename att
      | Some t \<Rightarrow> if t \<noteq> [] then Some t else filename att)"

definition path_of :: "string \<Rightarrow> string \<Rightarrow> string \<Rightarrow> path" where
  "path_of sname lname fname = sname @ ''/'' @ lname @ ''/'' @ fname"

definition is_image :: "attachment \<Rightarrow> bool" where
  "is_image att = prefix ''image/'' (case mimetype att of None \<Rightarrow> [] | Some m \<Rightarrow> m)"

text \<open>
  One round of the loop over the attachments of a task. Joining a path with \<^verbatim>\<open>None\<close> and
  reading the missing key \<^verbatim>\<open>"url"\<close> raise, in this order, before the duplicate check.
\<close>

definition process_attachment ::
  "remote \<Rightarrow> string \<Rightarrow> string \<Rightarrow> attachment \<Rightarrow> state \<Rightarrow> (exn + unit) \<times> state" where
  "process_attachment rem sname lname att w =
     (if is_image att then
        (case fname_of att of
           None \<Rightarrow> (Inl (TypeError ''fname''), w)
         | Some fname \<Rightarrow>
             let path = path_of sname lname fname in
             (case att_url att of
                None \<Rightarrow> (Inl (KeyError ''url''), w)
              | Some url \<Rightarrow>
                  if \<not> is_duplicate w path url None then
                    (case download rem url path (emit [Downloading fname] w) of
                       (Inl e, w1) \<Rightarrow> (Inl e, w1)
                     | (Inr success, w1) \<Rightarrow>
                         let w2 = (if success then w1\<lparr>total_imgs := total_imgs w1 + 1\<rparr>
                                   else emit [Failed_to_download fname]
                                          (w1\<lparr>failed_downloads := failed_downloads w1 + 1\<rparr>))
                         in (Inr (), sleep w2))
                  else (Inr (), emit [Skipping_duplicate fname] w)))
      else (Inr (), w))"

fun process_attachments ::
  "remote \<Rightarrow> string \<Rightarrow> string \<Rightarrow> attachment list \<Rightarrow> state \<Rightarrow> (exn + unit) \<times> state" where
  "process_attachments rem sname lname [] w = (Inr (), w)"
| "process_attachments rem sname lname (att # atts) w =
     (case process_attachment rem sname lname att w of
        (Inl e, w1) \<Rightarrow> (Inl e, w1)
      | (Inr _, w1) \<Rightarrow> process_attachments rem sname lname atts w1)"

text \<open>The body of the \<^verbatim>\<open>try\<close> block of a task, and the block with its handler.\<close>

definition task_try ::
  "remote \<Rightarrow> string \<Rightarrow> string \<Rightarrow> string \<Rightarrow> state \<Rightarrow> (exn + unit) \<times> state" where
  "task_try rem sname lname task w =
     (let w1 = emit [Api_get (Task task)] w in
      case get_task_r rem task of
        Inl e \<Rightarrow> (Inl e, w1)
      | Inr tdata \<Rightarrow>
          (case process_attachments rem sname lname (get_or_empty tdata) w1 of
             (Inl e, w2) \<Rightarrow> (Inl e, w2)
           | (Inr _, w2) \<Rightarrow> (Inr (), mark_task_processed task w2)))"

definition process_task :: "remote \<Rightarrow> string \<Rightarrow> string \<Rightarrow> string \<Rightarrow> state \<Rightarrow> state" where
  "process_task rem sname lname task w =
     (case task_try rem sname lname task w of
        (Inl e, w1) \<Rightarrow> emit [Error_processing_task task e] w1
      | (Inr _, w1) \<Rightarrow> sleep w1)"

fun process_tasks :: "remote \<Rightarrow> string \<Rightarrow> string \<Rightarrow> string list \<Rightarrow> state \<Rightarrow> state" where
  "process_tasks rem sname lname [] w = w"
| "process_tasks rem sname lname (task # ts) w =
     process_tasks rem sname lname ts (process_task rem sname lname task w)"

definition process_list :: "remote \<Rightarrow> string set \<Rightarrow> entry \<Rightarrow> state \<Rightarrow> state" where
  "process_list rem processed_tasks en w =
     (case en of (sid, sname, l, ts) \<Rightarrow>
        let lname = lst_name l;
            remaining_list_tasks = filter (\<lambda>t. t \<notin> processed_tasks) ts
        in if remaining_list_tasks = [] then w
           else process_tasks rem sname lname remaining_list_tasks w)"

fun process_lists :: "remote \<Rightarrow> string set \<Rightarrow> entry list \<Rightarrow> state \<Rightarrow> state" where
  "process_lists rem processed_tasks [] w = w"
| "process_lists rem processed_tasks (en # ens) w =
     process_lists rem processed_tasks ens (process_list rem processed_tasks en w)"

text \<open>
  \<^verbatim>\<open>main\<close>: the processed tasks are loaded once, before the walk; an exception of the walk
  ends the run; the counters start at zero after it.
\<close>

definition main :: "remote \<Rightarrow> state \<Rightarrow> ((exn + unit) \<times> state) option" where
  "main rem w0 =
     (let processed_tasks = load_processed_tasks w0 in
      case counting rem of
        None \<Rightarrow> None
      | Some (evs, Inl e) \<Rightarrow> Some (Inl e, emit evs w0)
      | Some (evs, Inr all_lists) \<Rightarrow>
          let w1 = (emit evs w0)\<lparr>total_imgs := 0, failed_downloads := 0\<rparr>
          in Some (Inr (), process_lists rem processed_tasks all_lists w1))"

section \<open>Observations on traces\<close>

text \<open>The events that a run adds to the trace of the state it starts from.\<close>

definition events_since :: "state \<Rightarrow> state \<Rightarrow> event list" where
  "events_since w w' = drop (length (trace w)) (trace w')"

text \<open>
  The events of the attachment loop are neither API requests nor task errors; the events of
  the walker are API requests other than task details, and sleeps.
\<close>

definition attachment_events :: "event list \<Rightarrow> bool" where
  "attachment_events evs \<longleftrightarrow>
     (\<forall>ep. Api_get ep \<notin> set evs) \<and> (\<forall>t e. Error_processing_task t e \<notin> set evs)"

fun walker_event :: "event \<Rightarrow> bool" where
  "walker_event (Api_get (Task _)) = False"
| "walker_event (Api_get _) = True"
| "walker_event Sleep = True"
| "walker_event _ = False"

text \<open>Two runs of \<^verbatim>\<open>main\<close>, the second one on the state that the first one leaves.\<close>

definition second_run :: "remote \<Rightarrow> state \<Rightarrow> ((exn + unit) \<times> state) option" where
  "second_run rem w = Option.bind (main rem w) (\<lambda>(r, w1). main rem w1)"

section \<open>Example inputs\<close>

definition init_state :: state where
  "init_state = \<lparr>files = Map.empty, metadata_file = Missing, failed_downloads_file = Missing,
     processed_tasks_file = Missing, clock = 0, trace = [], total_imgs = 0, failed_downloads = 0\<rparr>"

text \<open>A remote side with no spaces, and the same with one answer to every file request.\<close>

definition empty_remote :: remote where
  "empty_remote = \<lparr>get_space_r = Inr [], get_list_r = (\<lambda>_. Inr None),
     get_folder_r = (\<lambda>_. Inr None),
     get_task_page_r = (\<lambda>_ _. Inr \<lparr>tasks = None, last_page = None\<rparr>),
     get_task_r = (\<lambda>_. Inr None),
     get_file_r = (\<lambda>_. No_response (ConnectionError ''refused''))\<rparr>"

definition file_remote :: "reply \<Rightarrow> remote" where
  "file_remote r = empty_remote\<lparr>get_file_r := (\<lambda>_. r)\<rparr>"

definition ok_response :: "string option \<Rightarrow> nat list \<Rightarrow> reply" where
  "ok_response cl cs = Reply \<lparr>status = 200, content_length = cl, chunks = cs, stream_error = None\<rparr>"

definition not_found :: reply where
  "not_found = Reply \<lparr>status = 404, content_length = None, chunks = [], stream_error = None\<rparr>"

definition image :: "string \<Rightarrow> string option \<Rightarrow> attachment" where
  "image name u = \<lparr>mimetype = Some ''image/png'', title = Some name, filename = None, att_url = u\<rparr>"

text \<open>
  A workspace with one space \<open>S\<close> and one list \<open>L\<close> of two pages, one task on each. Task
  \<open>t1\<close> has one image that downloads; the attachments of task \<open>t2\<close> are a parameter. The file
  at \<open>u2\<close> is not found.
\<close>

definition demo_remote :: "attachment list \<Rightarrow> remote" where
  "demo_remote atts2 = \<lparr>
     get_space_r = Inr [(''1'', ''S'')],
     get_list_r = (\<lambda>_. Inr (Some [\<lparr>lst_id = ''10'', lst_name = ''L''\<rparr>])),
     get_folder_r = (\<lambda>_. Inr None),
     get_task_page_r = (\<lambda>_ pg.
        if pg = 0 then Inr \<lparr>tasks = Some [''t1''], last_page = Some False\<rparr>
        else Inr \<lparr>tasks = Some [''t2''], last_page = None\<rparr>),
     get_task_r = (\<lambda>t.
        if t = ''t1'' then Inr (Some [image ''a.png'' (Some ''u1'')])
        else Inr (Some atts2)),
     get_file_r = (\<lambda>u. if u = ''u1'' then ok_response (Some ''3'') [3] else not_found)\<rparr>"

text \<open>The example workspace with a single page that lists task \<open>t1\<close> twice.\<close>

definition twice_remote :: remote where
  "twice_remote = (demo_remote [])\<lparr>get_task_page_r :=
     (\<lambda>_ _. Inr \<lparr>tasks = Some [''t1'', ''t1''], last_page = Some True\<rparr>)\<rparr>"

text \<open>
  The state in which \<open>S/L/a.png\<close>, of 3 bytes, is on disk and recorded as downloaded from
  \<open>u1\<close>.
\<close>

definition recorded_state :: state where
  "recorded_state =
     record_download ''S/L/a.png'' ''u1'' 3 (init_state\<lparr>files := [''S/L/a.png'' \<mapsto> 3]\<rparr>)"

text \<open>
  Two choices for the attachments of task \<open>t2\<close>: an image whose download is not found, alone
  or followed by an image without the key \<^verbatim>\<open>"url"\<close>.
\<close>

definition handled_atts :: "attachment list" where
  "handled_atts = [image ''b.png'' (Some ''u2'')]"

definition failing_atts :: "attachment list" where
  "failing_atts = [image ''b.png'' (Some ''u2''), image ''c.png'' None]"

definition demo_pages :: "nat \<Rightarrow> page" where
  "demo_pages k = (if k = 0 then \<lparr>tasks = Some [''t1''], last_page = Some False\<rparr>
                   else \<lparr>tasks = Some [''t2''], last_page = None\<rparr>)"

text \<open>The state after a first run on \<open>demo_remote handled_atts\<close> from \<open>init_state\<close>.\<close>

definition after_handled_run :: state where
  "after_handled_run =
     \<lparr>files = [''S/L/a.png'' \<mapsto> 3],
      metadata_file =
        Valid [''S/L/a.png'' \<mapsto> \<lparr>si_url = ''u1'', si_size = 3, downloaded_at = 1\<rparr>],
      failed_downloads_file =
        Valid [\<lparr>fd_url = ''u2'', fd_dest = ''S/L/b.png'', fd_error = HTTPError 404, failed_at = 3\<rparr>],
      processed_tasks_file = Valid {''t2'', ''t1''},
      clock = 5,
      trace =
        [Api_get Spaces, Api_get (Lists ''1''), Api_get (Folders ''1''),
         Api_get (Tasks ''10'' 0), Sleep, Api_get (Tasks ''10'' 1),
         Api_get (Task ''t1''), Downloading ''a.png'', File_get ''u1'', Sleep, Sleep,
         Api_get (Task ''t2''), Downloading ''b.png'', File_get ''u2'',
         Failed_to_download ''b.png'', Sleep, Sleep],
      total_imgs = 1, failed_downloads = 1\<rparr>"

section \<open>Lemmas about the ledger and the download engine\<close>

lemma sleeps_simps [simp]:
  "sleeps [] = 0"
  "sleeps (e # evs) = (if e = Sleep then 1 else 0) + sleeps evs"
  "sleeps (evs @ evs') = sleeps evs + sleeps evs'"
  by (simp_all add: sleeps_def)

lemma events_since_append [simp]: "trace w' = trace w @ evs \<Longrightarrow> events_since w w' = evs"
  by (simp add: events_since_def)

lemma emit_fields [simp]:
  "files (emit evs w) = files w"
  "metadata_file (emit evs w) = metadata_file w"
  "failed_downloads_file (emit evs w) = failed_downloads_file w"
  "processed_tasks_file (emit evs w) = processed_tasks_file w"
  "trace (emit evs w) = trace w @ evs"
  "total_imgs (emit evs w) = total_imgs w"
  "failed_downloads (emit evs w) = failed_downloads w"
  "clock (emit evs w) = clock w + sleeps evs"
  by (simp_all add: emit_def)

lemma emit_loads [simp]:
  "load_metadata (emit evs w) = load_metadata w"
  "load_failed_downloads (emit evs w) = load_failed_downloads w"
  "load_processed_tasks (emit evs w) = load_processed_tasks w"
  by (simp_all add: load_metadata_def load_failed_downloads_def load_processed_tasks_def)

lemma is_duplicate_iff:
  "is_duplicate w p u e \<longleftrightarrow>
     (\<exists>sz info. files w p = Some sz \<and> (e = None \<or> e = Some 0 \<or> e = Some sz)
        \<and> load_metadata w p = Some info \<and> si_url info = u \<and> si_size info = sz)"
  by (cases e) (auto simp: is_duplicate_def truthy_size_def split: option.splits)

lemma is_duplicate_emit [simp]: "is_duplicate (emit evs w) p u e = is_duplicate w p u e"
  by (simp add: is_duplicate_iff)

lemma record_download_fields [simp]:
  "files (record_download p u s w) = files w"
  "failed_downloads_file (record_download p u s w) = failed_downloads_file w"
  "processed_tasks_file (record_download p u s w) = processed_tasks_file w"
  "trace (record_download p u s w) = trace w"
  "clock (record_download p u s w) = clock w"
  "total_imgs (record_download p u s w) = total_imgs w"
  "failed_downloads (record_download p u s w) = failed_downloads w"
  "load_metadata (record_download p u s w)
     = (load_metadata w)(p \<mapsto> \<lparr>si_url = u, si_size = s, downloaded_at = clock w\<rparr>)"
  by (simp_all add: record_download_def save_metadata_def load_metadata_def)

lemma mark_task_processed_fields [simp]:
  "files (mark_task_processed t w) = files w"
  "metadata_file (mark_task_processed t w) = metadata_file w"
  "failed_downloads_file (mark_task_processed t w) = failed_downloads_file w"
  "trace (mark_task_processed t w) = trace w"
  "clock (mark_task_processed t w) = clock w"
  "total_imgs (mark_task_processed t w) = total_imgs w"
  "failed_downloads (mark_task_processed t w) = failed_downloads w"
  "load_processed_tasks (mark_task_processed t w) = insert t (load_processed_tasks w)"
  by (simp_all add: mark_task_processed_def load_processed_tasks_def)

lemma download_except_fields [simp]:
  "fst (download_except url dest e w) = Inr False"
  "files (snd (download_except url dest e w)) = (files w)(dest := None)"
  "load_failed_downloads (snd (download_except url dest e w))
     = load_failed_downloads w @ [\<lparr>fd_url = url, fd_dest = dest, fd_error = e, failed_at = clock w\<rparr>]"
  "metadata_file (snd (download_except url dest e w)) = metadata_file w"
  "processed_tasks_file (snd (download_except url dest e w)) = processed_tasks_file w"
  "trace (snd (download_except url dest e w)) = trace w"
  "clock (snd (download_except url dest e w)) = clock w"
  "total_imgs (snd (download_except url dest e w)) = total_imgs w"
  "failed_downloads (snd (download_except url dest e w)) = failed_downloads w"
  by (auto simp: download_except_def log_failed_download_def load_failed_downloads_def Let_def)

lemma download_try_fields [simp]:
  "processed_tasks_file (snd (download_try rem url dest w)) = processed_tasks_file w"
  "failed_downloads_file (snd (download_try rem url dest w)) = failed_downloads_file w"
  "trace (snd (download_try rem url dest w)) = trace w @ [File_get url]"
  "clock (snd (download_try rem url dest w)) = clock w"
  "total_imgs (snd (download_try rem url dest w)) = total_imgs w"
  "failed_downloads (snd (download_try rem url dest w)) = failed_downloads w"
  by (auto simp: download_try_def Let_def split: reply.splits sum.splits option.splits)

lemma load_failed_download_try [simp]:
  "load_failed_downloads (snd (download_try rem url dest w)) = load_failed_downloads w"
  by (simp add: load_failed_downloads_def)

lemma download_eq:
  "download rem url dest w =
     (case fst (download_try rem url dest w) of
        Inl e \<Rightarrow> if is_request_exception e
                 then download_except url dest e (snd (download_try rem url dest w))
                 else download_try rem url dest w
      | Inr b \<Rightarrow> download_try rem url dest w)"
  by (cases "download_try rem url dest w") (auto simp: download_def split: sum.splits)

lemma download_fields [simp]:
  "processed_tasks_file (snd (download rem url dest w)) = processed_tasks_file w"
  "trace (snd (download rem url dest w)) = trace w @ [File_get url]"
  "clock (snd (download rem url dest w)) = clock w"
  "total_imgs (snd (download rem url dest w)) = total_imgs w"
  "failed_downloads (snd (download rem url dest w)) = failed_downloads w"
  by (simp_all add: download_eq split: sum.splits)

lemma download_result:
  assumes "download rem url dest w = (r, w1)"
  shows "processed_tasks_file w1 = processed_tasks_file w \<and> trace w1 = trace w @ [File_get url]
     \<and> total_imgs w1 = total_imgs w \<and> failed_downloads w1 = failed_downloads w"
  using download_fields [of rem url dest w] assms by simp

lemma download_try_success:
  assumes "fst (download_try rem url dest w) = Inr b"
  shows "b \<and> (\<exists>r. get_file_r rem url = Reply r
           \<and> files (snd (download_try rem url dest w)) dest = Some (sum_list (chunks r))
           \<and> load_metadata (snd (download_try rem url dest w)) dest
               = Some \<lparr>si_url = url, si_size = sum_list (chunks r), downloaded_at = clock w\<rparr>)"
proof (cases "get_file_r rem url")
  case (No_response e)
  with assms show ?thesis by (simp add: download_try_def)
next
  case (Reply r)
  show ?thesis
  proof (cases "400 \<le> status r \<and> status r < 600")
    case True
    with assms Reply show ?thesis by (simp add: download_try_def)
  next
    case False
    show ?thesis
    proof (cases "expected_size_of (content_length r)")
      case (Inl e)
      with assms Reply False show ?thesis by (simp add: download_try_def)
    next
      case (Inr x)
      show ?thesis
      proof (cases "stream_error r")
        case None
        with assms Reply False Inr show ?thesis by (auto simp add: download_try_def)
      next
        case (Some e)
        with assms Reply False Inr show ?thesis by (simp add: download_try_def)
      qed
    qed
  qed
qed




lemma load_from_ledger:
  "ledger_of cm = Some fm \<Longrightarrow> load_metadata_from cm = Inr (load_metadata_file fm)"
  "ledger_of cf = Some ff \<Longrightarrow> load_failed_downloads_from cf = Inr (load_failed_downloads_file ff)"
  by (cases cm; auto simp: load_metadata_from_def caught_by_load_def)
     (cases cf; auto simp: load_failed_downloads_from_def caught_by_load_def)

lemma load_processed_from_ledger:
  "load_processed_tasks_from Absent = Inr (load_processed_tasks_file Missing)"
  "load_processed_tasks_from Cannot_open = Inr (load_processed_tasks_file Unreadable)"
  "load_processed_tasks_from Invalid_json = Inr (load_processed_tasks_file Corrupt)"
  "load_processed_tasks_from (Json (Task_ids l)) = Inr (load_processed_tasks_file (Valid (set l)))"
  by (simp_all add: load_processed_tasks_from_def caught_by_load_def py_set_def)

section \<open>Lemmas about the orchestrator\<close>

lemma attachment_events_simps [simp]:
  "attachment_events []"
  "attachment_events (evs @ evs') \<longleftrightarrow> attachment_events evs \<and> attachment_events evs'"
  "attachment_events (File_get u # evs) \<longleftrightarrow> attachment_events evs"
  "attachment_events (Sleep # evs) \<longleftrightarrow> attachment_events evs"
  "attachment_events (Downloading f # evs) \<longleftrightarrow> attachment_events evs"
  "attachment_events (Failed_to_download f # evs) \<longleftrightarrow> attachment_events evs"
  "attachment_events (Skipping_duplicate f # evs) \<longleftrightarrow> attachment_events evs"
  by (auto simp: attachment_events_def)

lemma process_attachment_inv:
  assumes "process_attachment rem sname lname att w = (r, w')"
  shows "processed_tasks_file w' = processed_tasks_file w
    \<and> (\<exists>evs. trace w' = trace w @ evs \<and> attachment_events evs
          \<and> sleeps evs + total_imgs w + failed_downloads w = total_imgs w' + failed_downloads w')"
  using assms
  by (auto simp: process_attachment_def Let_def sleep_def
      split: if_splits option.splits prod.splits sum.splits dest!: download_result)

lemma process_attachments_inv:
  assumes "process_attachments rem sname lname atts w = (r, w')"
  shows "processed_tasks_file w' = processed_tasks_file w
    \<and> (\<exists>evs. trace w' = trace w @ evs \<and> attachment_events evs
          \<and> sleeps evs + total_imgs w + failed_downloads w = total_imgs w' + failed_downloads w')"
  using assms
proof (induction atts arbitrary: w)
  case Nil
  then show ?case by simp
next
  case (Cons att atts)
  obtain r1 w1 where pa: "process_attachment rem sname lname att w = (r1, w1)"
    by (cases "process_attachment rem sname lname att w")
  from process_attachment_inv [OF pa] obtain evs1 where
    1: "processed_tasks_file w1 = processed_tasks_file w" "trace w1 = trace w @ evs1"
       "attachment_events evs1"
       "sleeps evs1 + total_imgs w + failed_downloads w = total_imgs w1 + failed_downloads w1"
    by blast
  show ?case
  proof (cases r1)
    case (Inl e)
    with Cons.prems pa have "w' = w1" by simp
    with 1 show ?thesis by blast
  next
    case (Inr u)
    with Cons.prems pa have "process_attachments rem sname lname atts w1 = (r, w')" by simp
    from Cons.IH [OF this] obtain evs2 where
      2: "processed_tasks_file w' = processed_tasks_file w1" "trace w' = trace w1 @ evs2"
         "attachment_events evs2"
         "sleeps evs2 + total_imgs w1 + failed_downloads w1 = total_imgs w' + failed_downloads w'"
      by blast
    have "trace w' = trace w @ (evs1 @ evs2)" using 1 2 by simp
    moreover have "attachment_events (evs1 @ evs2)" using 1 2 by simp
    moreover have "sleeps (evs1 @ evs2) + total_imgs w + failed_downloads w
        = total_imgs w' + failed_downloads w'" using 1 2 by simp
    ultimately show ?thesis using 1 2 by metis
  qed
qed

lemma task_try_inv:
  assumes "task_try rem sname lname task w = (r, w')"
  shows "\<exists>evs. trace w' = trace w @ Api_get (Task task) # evs \<and> attachment_events evs
          \<and> sleeps evs + total_imgs w + failed_downloads w = total_imgs w' + failed_downloads w'
          \<and> load_processed_tasks w' =
              (case r of Inl e \<Rightarrow> load_processed_tasks w | Inr _ \<Rightarrow> insert task (load_processed_tasks w))"
proof (cases "get_task_r rem task")
  case (Inl e)
  with assms show ?thesis by (auto simp: task_try_def)
next
  case (Inr tdata)
  obtain r2 w2 where pa: "process_attachments rem sname lname (get_or_empty tdata)
      (emit [Api_get (Task task)] w) = (r2, w2)"
    by (cases "process_attachments rem sname lname (get_or_empty tdata) (emit [Api_get (Task task)] w)")
  from process_attachments_inv [OF pa] obtain evs where
    1: "processed_tasks_file w2 = processed_tasks_file w" "trace w2 = trace w @ Api_get (Task task) # evs"
       "attachment_events evs"
       "sleeps evs + total_imgs w + failed_downloads w = total_imgs w2 + failed_downloads w2"
    by auto
  have 2: "load_processed_tasks w2 = load_processed_tasks w"
    using 1 by (simp add: load_processed_tasks_def)
  show ?thesis
  proof (cases r2)
    case (Inl e)
    with assms Inr pa have "r = Inl e" "w' = w2" by (simp_all add: task_try_def)
    with 1 2 show ?thesis by simp
  next
    case (Inr u)
    with assms \<open>get_task_r rem task = Inr tdata\<close> pa
    have "r = Inr ()" "w' = mark_task_processed task w2" by (simp_all add: task_try_def)
    with 1 2 show ?thesis by simp
  qed
qed

lemma process_task_inv:
  "\<exists>evs. trace (process_task rem sname lname t w) = trace w @ Api_get (Task t) # evs
     \<and> (\<forall>ep. Api_get ep \<notin> set evs)
     \<and> sleeps evs + total_imgs w + failed_downloads w
         = total_imgs (process_task rem sname lname t w) + failed_downloads (process_task rem sname lname t w)
           + (case fst (task_try rem sname lname t w) of Inl e \<Rightarrow> 0 | Inr _ \<Rightarrow> 1)
     \<and> (case fst (task_try rem sname lname t w) of
           Inl e \<Rightarrow> load_processed_tasks (process_task rem sname lname t w) = load_processed_tasks w
                   \<and> last (trace (process_task rem sname lname t w)) = Error_processing_task t e
         | Inr _ \<Rightarrow> load_processed_tasks (process_task rem sname lname t w) = insert t (load_processed_tasks w)
                   \<and> (\<forall>t' e. Error_processing_task t' e \<notin> set evs))"
proof -
  obtain r w1 where tt: "task_try rem sname lname t w = (r, w1)"
    by (cases "task_try rem sname lname t w")
  from task_try_inv [OF tt] obtain evs where
    1: "trace w1 = trace w @ Api_get (Task t) # evs" "attachment_events evs"
       "sleeps evs + total_imgs w + failed_downloads w = total_imgs w1 + failed_downloads w1"
       "load_processed_tasks w1 =
          (case r of Inl e \<Rightarrow> load_processed_tasks w | Inr _ \<Rightarrow> insert t (load_processed_tasks w))"
    by blast
  show ?thesis
  proof (cases r)
    case (Inl e)
    then have pt: "process_task rem sname lname t w = emit [Error_processing_task t e] w1"
      using tt by (simp add: process_task_def)
    have "trace (process_task rem sname lname t w)
        = trace w @ Api_get (Task t) # (evs @ [Error_processing_task t e])"
      using 1 pt by simp
    moreover have "\<forall>ep. Api_get ep \<notin> set (evs @ [Error_processing_task t e])"
      using 1 by (auto simp: attachment_events_def)
    ultimately show ?thesis
      using 1 pt Inl tt by (intro exI [of _ "evs @ [Error_processing_task t e]"]) simp
  next
    case (Inr u)
    then have pt: "process_task rem sname lname t w = sleep w1"
      using tt by (simp add: process_task_def)
    have "trace (process_task rem sname lname t w) = trace w @ Api_get (Task t) # (evs @ [Sleep])"
      using 1 pt by (simp add: sleep_def)
    moreover have "\<forall>ep. Api_get ep \<notin> set (evs @ [Sleep])"
      "\<forall>t' e. Error_processing_task t' e \<notin> set (evs @ [Sleep])"
      using 1 by (auto simp: attachment_events_def)
    ultimately show ?thesis
      using 1 pt Inr tt by (intro exI [of _ "evs @ [Sleep]"]) (simp add: sleep_def)
  qed
qed

lemma process_task_summary:
  "\<exists>evs. trace (process_task rem sname lname t w) = trace w @ evs
     \<and> (\<forall>t'. Api_get (Task t') \<in> set evs \<longleftrightarrow> t' = t)
     \<and> load_processed_tasks w \<subseteq> load_processed_tasks (process_task rem sname lname t w)
     \<and> ((\<forall>t' e. Error_processing_task t' e \<notin> set evs)
           \<longrightarrow> t \<in> load_processed_tasks (process_task rem sname lname t w))"
proof -
  let ?w' = "process_task rem sname lname t w"
  from process_task_inv [of rem sname lname t w] obtain evs where
    1: "trace ?w' = trace w @ Api_get (Task t) # evs" "\<forall>ep. Api_get ep \<notin> set evs"
    and 2: "case fst (task_try rem sname lname t w) of
           Inl e \<Rightarrow> load_processed_tasks ?w' = load_processed_tasks w
                   \<and> last (trace ?w') = Error_processing_task t e
         | Inr _ \<Rightarrow> load_processed_tasks ?w' = insert t (load_processed_tasks w)
                   \<and> (\<forall>t' e. Error_processing_task t' e \<notin> set evs)"
    by blast
  have a: "\<forall>t'. Api_get (Task t') \<in> set (Api_get (Task t) # evs) \<longleftrightarrow> t' = t"
    using 1 by auto
  have b: "load_processed_tasks w \<subseteq> load_processed_tasks ?w'"
    using 2 by (auto split: sum.splits)
  have c: "t \<in> load_processed_tasks ?w'"
    if "\<forall>t' e. Error_processing_task t' e \<notin> set (Api_get (Task t) # evs)"
  proof (cases "fst (task_try rem sname lname t w)")
    case (Inl e)
    with 2 have "last (trace ?w') = Error_processing_task t e" by simp
    with 1 have "last (Api_get (Task t) # evs) = Error_processing_task t e" by simp
    moreover have "last (Api_get (Task t) # evs) \<in> set (Api_get (Task t) # evs)"
      by (rule last_in_set) simp
    ultimately show ?thesis using that by metis
  next
    case (Inr u)
    with 2 show ?thesis by simp
  qed
  from 1 a b c show ?thesis by blast
qed

lemma process_tasks_summary:
  "\<exists>evs. trace (process_tasks rem sname lname ts w) = trace w @ evs
     \<and> (\<forall>t. Api_get (Task t) \<in> set evs \<longleftrightarrow> t \<in> set ts)
     \<and> load_processed_tasks w \<subseteq> load_processed_tasks (process_tasks rem sname lname ts w)
     \<and> ((\<forall>t e. Error_processing_task t e \<notin> set evs)
           \<longrightarrow> set ts \<subseteq> load_processed_tasks (process_tasks rem sname lname ts w))"
proof (induction ts arbitrary: w)
  case Nil
  then show ?case by simp
next
  case (Cons t ts)
  let ?w1 = "process_task rem sname lname t w"
  let ?w' = "process_tasks rem sname lname ts ?w1"
  from process_task_summary [of rem sname lname t w] obtain evs1 where
    1: "trace ?w1 = trace w @ evs1" "\<forall>t'. Api_get (Task t') \<in> set evs1 \<longleftrightarrow> t' = t"
       "load_processed_tasks w \<subseteq> load_processed_tasks ?w1"
       "(\<forall>t' e. Error_processing_task t' e \<notin> set evs1) \<longrightarrow> t \<in> load_processed_tasks ?w1"
    by blast
  from Cons.IH [of ?w1] obtain evs2 where
    2: "trace ?w' = trace ?w1 @ evs2" "\<forall>t'. Api_get (Task t') \<in> set evs2 \<longleftrightarrow> t' \<in> set ts"
       "load_processed_tasks ?w1 \<subseteq> load_processed_tasks ?w'"
       "(\<forall>t' e. Error_processing_task t' e \<notin> set evs2) \<longrightarrow> set ts \<subseteq> load_processed_tasks ?w'"
    by blast
  have "trace ?w' = trace w @ (evs1 @ evs2)" using 1 2 by simp
  moreover have "\<forall>t'. Api_get (Task t') \<in> set (evs1 @ evs2) \<longleftrightarrow> t' \<in> set (t # ts)"
    using 1 2 by auto
  moreover have "load_processed_tasks w \<subseteq> load_processed_tasks ?w'" using 1 2 by blast
  moreover have "(\<forall>t' e. Error_processing_task t' e \<notin> set (evs1 @ evs2))
      \<longrightarrow> set (t # ts) \<subseteq> load_processed_tasks ?w'"
    using 1 2 by auto
  ultimately show ?case by (simp del: set_append)
qed

lemma process_list_summary:
  "\<exists>evs. trace (process_list rem P (sid, sname, l, ts) w) = trace w @ evs
     \<and> (\<forall>t. Api_get (Task t) \<in> set evs \<longleftrightarrow> t \<in> set ts \<and> t \<notin> P)
     \<and> load_processed_tasks w \<subseteq> load_processed_tasks (process_list rem P (sid, sname, l, ts) w)
     \<and> ((\<forall>t e. Error_processing_task t e \<notin> set evs)
           \<longrightarrow> set ts \<subseteq> P \<union> load_processed_tasks (process_list rem P (sid, sname, l, ts) w))"
proof (cases "filter (\<lambda>t. t \<notin> P) ts = []")
  case True
  then have "process_list rem P (sid, sname, l, ts) w = w" by (simp add: process_list_def)
  moreover from True have "\<forall>t \<in> set ts. t \<in> P" by (simp add: filter_empty_conv)
  ultimately show ?thesis by auto
next
  case False
  then have eq: "process_list rem P (sid, sname, l, ts) w
      = process_tasks rem sname (lst_name l) (filter (\<lambda>t. t \<notin> P) ts) w"
    by (simp add: process_list_def)
  from process_tasks_summary [of rem sname "lst_name l" "filter (\<lambda>t. t \<notin> P) ts" w]
  show ?thesis unfolding eq by (elim exE conjE, intro exI conjI) auto
qed

lemma process_lists_summary:
  "\<exists>evs. trace (process_lists rem P ens w) = trace w @ evs
     \<and> (\<forall>t. Api_get (Task t) \<in> set evs \<longleftrightarrow> (\<exists>en \<in> set ens. t \<in> set (snd (snd (snd en))) \<and> t \<notin> P))
     \<and> load_processed_tasks w \<subseteq> load_processed_tasks (process_lists rem P ens w)
     \<and> ((\<forall>t e. Error_processing_task t e \<notin> set evs)
           \<longrightarrow> (\<forall>en \<in> set ens. set (snd (snd (snd en)))
                  \<subseteq> P \<union> load_processed_tasks (process_lists rem P ens w)))"
proof (induction ens arbitrary: w)
  case Nil
  then show ?case by simp
next
  case (Cons en ens)
  obtain sid sname l ts where en: "en = (sid, sname, l, ts)" by (cases en)
  let ?w1 = "process_list rem P en w"
  let ?w' = "process_lists rem P ens ?w1"
  from process_list_summary [of rem P sid sname l ts w] en obtain evs1 where
    1: "trace ?w1 = trace w @ evs1"
       "\<forall>t. Api_get (Task t) \<in> set evs1 \<longleftrightarrow> t \<in> set ts \<and> t \<notin> P"
       "load_processed_tasks w \<subseteq> load_processed_tasks ?w1"
       "(\<forall>t e. Error_processing_task t e \<notin> set evs1) \<longrightarrow> set ts \<subseteq> P \<union> load_processed_tasks ?w1"
    by blast
  from Cons.IH [of ?w1] obtain evs2 where
    2: "trace ?w' = trace ?w1 @ evs2"
       "\<forall>t. Api_get (Task t) \<in> set evs2 \<longleftrightarrow> (\<exists>en \<in> set ens. t \<in> set (snd (snd (snd en))) \<and> t \<notin> P)"
       "load_processed_tasks ?w1 \<subseteq> load_processed_tasks ?w'"
       "(\<forall>t e. Error_processing_task t e \<notin> set evs2)
           \<longrightarrow> (\<forall>en \<in> set ens. set (snd (snd (snd en))) \<subseteq> P \<union> load_processed_tasks ?w')"
    by blast
  have "trace ?w' = trace w @ (evs1 @ evs2)" using 1 2 by simp
  moreover have "\<forall>t. Api_get (Task t) \<in> set (evs1 @ evs2)
       \<longleftrightarrow> (\<exists>en' \<in> set (en # ens). t \<in> set (snd (snd (snd en'))) \<and> t \<notin> P)"
    using 1(2) 2(2) en by auto
  moreover have "load_processed_tasks w \<subseteq> load_processed_tasks ?w'" using 1 2 by blast
  moreover have "(\<forall>t e. Error_processing_task t e \<notin> set (evs1 @ evs2))
      \<longrightarrow> (\<forall>en' \<in> set (en # ens). set (snd (snd (snd en'))) \<subseteq> P \<union> load_processed_tasks ?w')"
    using 1(4) 2(3,4) en by auto
  ultimately show ?case by (simp del: set_append)
qed

lemma process_lists_all_processed:
  "\<forall>en \<in> set ens. set (snd (snd (snd en))) \<subseteq> P \<Longrightarrow> process_lists rem P ens w = w"
proof (induction ens arbitrary: w)
  case Nil
  then show ?case by simp
next
  case (Cons en ens)
  obtain sid sname l ts where en: "en = (sid, sname, l, ts)" by (cases en)
  with Cons.prems have "filter (\<lambda>t. t \<notin> P) ts = []" by (auto simp: filter_empty_conv)
  then have "process_list rem P en w = w" by (simp add: process_list_def en)
  with Cons show ?case by simp
qed

lemma process_attachment_download:
  assumes "is_image att" "fname_of att = Some f" "att_url att = Some u"
    and "\<not> is_duplicate w (path_of sname lname f) u None"
  shows "process_attachment rem sname lname att w =
     (case download rem u (path_of sname lname f) (emit [Downloading f] w) of
        (Inl e, w1) \<Rightarrow> (Inl e, w1)
      | (Inr b, w1) \<Rightarrow>
          (Inr (), sleep (if b then w1\<lparr>total_imgs := total_imgs w1 + 1\<rparr>
                          else emit [Failed_to_download f]
                                 (w1\<lparr>failed_downloads := failed_downloads w1 + 1\<rparr>))))"
  using assms by (auto simp: process_attachment_def Let_def split: prod.splits sum.splits)

lemma process_attachment_duplicate:
  assumes "is_image att" "fname_of att = Some f" "att_url att = Some u"
    and "is_duplicate w (path_of sname lname f) u None"
  shows "process_attachment rem sname lname att w = (Inr (), emit [Skipping_duplicate f] w)"
  using assms by (simp add: process_attachment_def)

lemma process_attachments_step:
  "fst (process_attachment rem sname lname att w) = Inr () \<Longrightarrow>
     process_attachments rem sname lname (att # atts) w
       = process_attachments rem sname lname atts (snd (process_attachment rem sname lname att w))"
  by (cases "process_attachment rem sname lname att w") auto



lemma processed_tasks_process_attachment:
  "load_processed_tasks (snd (process_attachment rem sname lname att v)) = load_processed_tasks v"
proof -
  obtain r v' where pa: "process_attachment rem sname lname att v = (r, v')"
    by (cases "process_attachment rem sname lname att v")
  from process_attachment_inv [OF pa] pa show ?thesis by (simp add: load_processed_tasks_def)
qed

section \<open>Lemmas about the walker and \<^verbatim>\<open>main\<close>\<close>

lemma iter_tasks_events:
  "iter_tasks rem list_id pg = Some y \<Longrightarrow>
     \<forall>e \<in> set (fst y). walker_event e"
proof (induction rule: iter_tasks.raw_induct [rotated 1, consumes 1, case_names 1])
  case (1 f rem list_id pg y)
  show ?case
  proof (cases "get_task_page_r rem list_id pg")
    case (Inl e)
    with 1(2) show ?thesis by auto
  next
    case (Inr data)
    show ?thesis
    proof (cases "is_last_page data")
      case True
      with 1(2) Inr show ?thesis by auto
    next
      case False
      with 1(2) Inr obtain y' where y': "f rem list_id (pg + 1) = Some y'"
        and y: "y = (Api_get (Tasks list_id pg) # Sleep # fst y',
                 case snd y' of Inl e \<Rightarrow> Inl e | Inr ts \<Rightarrow> Inr (get_or_empty (tasks data) @ ts))"
        by (auto simp: bind_eq_Some_conv split: prod.splits)
      from 1(1) [OF y'] y show ?thesis by auto
    qed
  qed
qed

lemma count_lists_events:
  "count_lists rem sid sname ls = Some (evs, r) \<Longrightarrow> \<forall>e \<in> set evs. walker_event e"
proof (induction ls arbitrary: evs r)
  case Nil
  then show ?case by simp
next
  case (Cons l ls)
  from Cons.prems obtain evs1 r1 where it: "iter_tasks rem (lst_id l) 0 = Some (evs1, r1)"
    by (auto split: option.splits)
  have e1: "\<forall>e \<in> set evs1. walker_event e"
    using iter_tasks_events [OF it] by auto
  show ?case
  proof (cases r1)
    case (Inl e)
    with Cons.prems it e1 show ?thesis by auto
  next
    case (Inr ts)
    with Cons.prems it obtain evs2 r2 where
      cl: "count_lists rem sid sname ls = Some (evs2, r2)" and "evs = evs1 @ evs2"
      by (auto split: option.splits sum.splits)
    with Cons.IH [OF cl] e1 show ?thesis by auto
  qed
qed

lemma get_folder_lists_events:
  "get_folder_lists rem sid = (evs, r) \<Longrightarrow> \<forall>e \<in> set evs. walker_event e"
  by (auto simp: get_folder_lists_def split: sum.splits)

lemma count_spaces_events:
  "count_spaces rem ss = Some (evs, r) \<Longrightarrow> \<forall>e \<in> set evs. walker_event e"
proof (induction ss arbitrary: evs r)
  case Nil
  then show ?case by simp
next
  case (Cons s ss)
  obtain sid sname where s: "s = (sid, sname)" by (cases s)
  obtain evs0 r0 where gf: "get_folder_lists rem sid = (evs0, r0)"
    by (cases "get_folder_lists rem sid")
  note e0 = get_folder_lists_events [OF gf]
  show ?case
  proof (cases r0)
    case (Inl e)
    with Cons.prems s gf e0 show ?thesis by auto
  next
    case (Inr lsts)
    with Cons.prems s gf obtain evs1 r1 where
      cl: "count_lists rem sid sname lsts = Some (evs1, r1)"
      by (auto split: option.splits)
    note e1 = count_lists_events [OF cl]
    show ?thesis
    proof (cases r1)
      case (Inl e)
      with Cons.prems s gf \<open>r0 = Inr lsts\<close> cl e0 e1 show ?thesis by auto
    next
      case (Inr es)
      with Cons.prems s gf \<open>r0 = Inr lsts\<close> cl obtain evs2 r2 where
        cs: "count_spaces rem ss = Some (evs2, r2)" and "evs = evs0 @ evs1 @ evs2"
        by (auto split: option.splits sum.splits)
      with Cons.IH [OF cs] e0 e1 show ?thesis by auto
    qed
  qed
qed

lemma counting_events:
  assumes "counting rem = Some (evs, r)"
  shows "\<forall>e \<in> set evs. walker_event e"
proof (cases "get_space_r rem")
  case (Inl e)
  with assms show ?thesis by (auto simp: counting_def get_spaces_def)
next
  case (Inr data)
  with assms obtain evs' where
    cs: "count_spaces rem (foldl (\<lambda>d (i, n). AList.update i n d) [] data) = Some (evs', r)"
    and "evs = Api_get Spaces # evs'"
    by (auto simp: counting_def get_spaces_def split: option.splits)
  with count_spaces_events [OF cs] show ?thesis by simp
qed

lemma walker_events:
  assumes "\<forall>e \<in> set evs. walker_event e"
  shows "\<forall>t. Api_get (Task t) \<notin> set evs" and "\<forall>u. File_get u \<notin> set evs"
  using assms by auto

lemma main_cases:
  assumes "main rem w = Some (r, w')"
  obtains (abort) evs e where "counting rem = Some (evs, Inl e)" "r = Inl e" "w' = emit evs w"
  | (run) evs all_lists where "counting rem = Some (evs, Inr all_lists)" "r = Inr ()"
      "w' = process_lists rem (load_processed_tasks w) all_lists
              ((emit evs w)\<lparr>total_imgs := 0, failed_downloads := 0\<rparr>)"
  using assms by (auto simp: main_def Let_def split: option.splits sum.splits)

lemma iter_tasks_from:
  assumes "\<forall>k. p \<le> k \<and> k \<le> p + d \<longrightarrow> get_task_page_r rem list_id k = Inr (pages k)"
    and "\<forall>k. p \<le> k \<and> k < p + d \<longrightarrow> last_page (pages k) = Some False"
    and "last_page (pages (p + d)) \<noteq> Some False"
  shows "\<exists>evs. iter_tasks rem list_id p
            = Some (evs, Inr (concat (map (\<lambda>k. get_or_empty (tasks (pages k))) [p..<Suc (p + d)])))
          \<and> filter (\<lambda>e. e \<noteq> Sleep) evs = map (\<lambda>k. Api_get (Tasks list_id k)) [p..<Suc (p + d)]
          \<and> sleeps evs = d"
  using assms
proof (induction d arbitrary: p)
  case 0
  then have pg: "get_task_page_r rem list_id p = Inr (pages p)" and "is_last_page (pages p)"
    by (auto simp: is_last_page_def split: option.splits)
  then show ?case by (subst iter_tasks.simps) simp
next
  case (Suc d)
  have pg: "get_task_page_r rem list_id p = Inr (pages p)" using Suc.prems(1) by simp
  have nl: "\<not> is_last_page (pages p)" using Suc.prems(2) by (simp add: is_last_page_def)
  have "\<exists>evs. iter_tasks rem list_id (Suc p)
            = Some (evs, Inr (concat (map (\<lambda>k. get_or_empty (tasks (pages k))) [Suc p..<Suc (Suc p + d)])))
          \<and> filter (\<lambda>e. e \<noteq> Sleep) evs = map (\<lambda>k. Api_get (Tasks list_id k)) [Suc p..<Suc (Suc p + d)]
          \<and> sleeps evs = d"
    using Suc.prems by (intro Suc.IH) auto
  then obtain evs where
    1: "iter_tasks rem list_id (Suc p)
            = Some (evs, Inr (concat (map (\<lambda>k. get_or_empty (tasks (pages k))) [Suc p..<Suc (Suc p + d)])))"
       "filter (\<lambda>e. e \<noteq> Sleep) evs = map (\<lambda>k. Api_get (Tasks list_id k)) [Suc p..<Suc (Suc p + d)]"
       "sleeps evs = d"
    by blast
  have upt: "[p..<Suc (Suc (p + d))] = p # [Suc p..<Suc (Suc (p + d))]"
    by (simp add: upt_conv_Cons)
  have "iter_tasks rem list_id p
      = Some (Api_get (Tasks list_id p) # Sleep # evs,
              Inr (concat (map (\<lambda>k. get_or_empty (tasks (pages k))) [p..<Suc (p + Suc d)])))"
    using 1(1) by (subst iter_tasks.simps) (simp add: pg nl upt del: upt_Suc)
  moreover have "filter (\<lambda>e. e \<noteq> Sleep) (Api_get (Tasks list_id p) # Sleep # evs)
      = map (\<lambda>k. Api_get (Tasks list_id k)) [p..<Suc (p + Suc d)]"
    using 1(2) by (simp add: upt del: upt_Suc)
  moreover have "sleeps (Api_get (Tasks list_id p) # Sleep # evs) = Suc d"
    by (simp add: 1(3))
  ultimately show ?case by blast
qed

section \<open>The example workspace, evaluated\<close>

lemma iter_demo: "iter_tasks (demo_remote a) ''10'' 0 =
   Some ([Api_get (Tasks ''10'' 0), Sleep, Api_get (Tasks ''10'' 1)], Inr [''t1'', ''t2''])"
  by (simp add: iter_tasks.simps demo_remote_def is_last_page_def get_or_empty_def)

lemma get_folder_lists_demo:
  "get_folder_lists (demo_remote a) s
     = ([Api_get (Lists s), Api_get (Folders s)], Inr [\<lparr>lst_id = ''10'', lst_name = ''L''\<rparr>])"
  by (simp add: get_folder_lists_def demo_remote_def get_or_empty_def)

lemma get_spaces_demo: "get_spaces (demo_remote a) = ([Api_get Spaces], Inr [(''1'', ''S'')])"
  by (simp add: get_spaces_def demo_remote_def)

lemma counting_demo:
  "counting (demo_remote a) =
     Some ([Api_get Spaces, Api_get (Lists ''1''), Api_get (Folders ''1''),
            Api_get (Tasks ''10'' 0), Sleep, Api_get (Tasks ''10'' 1)],
           Inr [(''1'', ''S'', \<lparr>lst_id = ''10'', lst_name = ''L''\<rparr>, [''t1'', ''t2''])])"
  by (simp add: counting_def get_spaces_demo get_folder_lists_demo iter_demo)

lemmas eval_defs = main_def process_list_def process_task_def task_try_def process_attachment_def
  download_def download_try_def download_except_def log_failed_download_def
  load_failed_downloads_def record_download_def save_metadata_def load_metadata_def
  mark_task_processed_def load_processed_tasks_def is_duplicate_def truthy_size_def
  expected_size_of_def py_int_def py_strip_def py_isspace_def is_digit_def digits_value_def
  emit_def sleeps_def sleep_def is_image_def fname_of_def path_of_def get_or_empty_def
  image_def ok_response_def not_found_def init_state_def Let_def

lemmas eval_defs2 = eval_defs recorded_state_def failing_atts_def handled_atts_def file_remote_def
  empty_remote_def events_since_def second_run_def after_handled_run_def

lemma main_handled:
  "main (demo_remote handled_atts) init_state = Some (Inr (), after_handled_run)"
  by (simp add: counting_demo eval_defs2) (simp add: demo_remote_def eval_defs2)

lemma counting_twice:
  "counting twice_remote =
     Some ([Api_get Spaces, Api_get (Lists ''1''), Api_get (Folders ''1''), Api_get (Tasks ''10'' 0)],
           Inr [(''1'', ''S'', \<lparr>lst_id = ''10'', lst_name = ''L''\<rparr>, [''t1'', ''t1''])])"
proof -
  have "iter_tasks twice_remote ''10'' 0 = Some ([Api_get (Tasks ''10'' 0)], Inr [''t1'', ''t1''])"
    by (simp add: iter_tasks.simps twice_remote_def is_last_page_def get_or_empty_def)
  moreover have "get_folder_lists twice_remote ''1''
     = ([Api_get (Lists ''1''), Api_get (Folders ''1'')], Inr [\<lparr>lst_id = ''10'', lst_name = ''L''\<rparr>])"
    by (simp add: get_folder_lists_def twice_remote_def demo_remote_def get_or_empty_def)
  moreover have "get_spaces twice_remote = ([Api_get Spaces], Inr [(''1'', ''S'')])"
    by (simp add: get_spaces_def twice_remote_def demo_remote_def)
  ultimately show ?thesis by (simp add: counting_def)
qed

section \<open>The claims\<close>

subsection \<open>C1: duplicate detection\<close>

text \<open>
  C1 asks that a queried expected size that differs from the size on disk makes
  \<^verbatim>\<open>is_duplicate\<close> false. The code, evaluated: with a file of 3 bytes on disk, recorded with
  3 bytes from \<open>u1\<close>, \<^verbatim>\<open>is_duplicate\<close> with expected size 0 is true. The guard
  \<^verbatim>\<open>if expected_size and ...\<close> skips the comparison for a size of 0 that was provided.
\<close>

theorem is_duplicate_zero_expected_size:
  "files recorded_state ''S/L/a.png'' = Some 3
   \<and> load_metadata recorded_state ''S/L/a.png''
       = Some \<lparr>si_url = ''u1'', si_size = 3, downloaded_at = 0\<rparr>
   \<and> is_duplicate recorded_state ''S/L/a.png'' ''u1'' (Some 0)"
  by (simp add: eval_defs2)

text \<open>
  For every other expected size the code does what C1 says: after a download of size \<open>s\<close>
  from \<open>u\<close> is recorded at \<open>p\<close>, with the file on disk, the check is true at \<open>s\<close>, and false
  for another URL, for an expected size that is neither zero nor \<open>s\<close>, and once the file is
  deleted.
\<close>

lemma is_duplicate_recorded:
  assumes "files w p = Some s"
  shows "is_duplicate (record_download p u s w) p u (Some s)
    \<and> (u' \<noteq> u \<longrightarrow> \<not> is_duplicate (record_download p u s w) p u' e)
    \<and> (s' \<noteq> s \<and> s' \<noteq> 0 \<longrightarrow> \<not> is_duplicate (record_download p u s w) p u (Some s'))
    \<and> \<not> is_duplicate ((record_download p u s w)\<lparr>files := (files (record_download p u s w))(p := None)\<rparr>) p u e
    \<and> (is_duplicate w p u e \<longleftrightarrow>
         (\<exists>sz info. files w p = Some sz \<and> (e = None \<or> e = Some 0 \<or> e = Some sz)
            \<and> load_metadata w p = Some info \<and> si_url info = u \<and> si_size info = sz))"
  using assms by (auto simp: is_duplicate_iff)

lemma is_duplicate_recorded_example:
  "is_duplicate recorded_state ''S/L/a.png'' ''u1'' (Some 3)
   \<and> \<not> is_duplicate recorded_state ''S/L/a.png'' ''u9'' (Some 3)
   \<and> \<not> is_duplicate recorded_state ''S/L/a.png'' ''u1'' (Some 7)
   \<and> \<not> is_duplicate (recorded_state\<lparr>files := (files recorded_state)(''S/L/a.png'' := None)\<rparr>)
         ''S/L/a.png'' ''u1'' (Some 3)"
proof -
  have h: "files (init_state\<lparr>files := [''S/L/a.png'' \<mapsto> 3]\<rparr>) ''S/L/a.png'' = Some 3"
    by simp
  from is_duplicate_recorded [OF h, of "''u1''" "''u9''" "Some 3" 7]
  show ?thesis by (simp add: recorded_state_def)
qed

subsection \<open>C2: a second run\<close>

text \<open>
  C2 as stated fails. In the example workspace task \<open>t2\<close> has an image whose download is
  not found and then an image without a URL: the first run logs the failed download and
  leaves \<open>t2\<close> unprocessed, and the second run, on the same remote side and the state the
  first one left, tries \<open>t2\<close> again and appends a second record to the failed-download log.
\<close>

theorem second_run_counterexample:
  "map_option (load_failed_downloads \<circ> snd) (main (demo_remote failing_atts) init_state)
     = Some [\<lparr>fd_url = ''u2'', fd_dest = ''S/L/b.png'', fd_error = HTTPError 404, failed_at = 3\<rparr>]
   \<and> map_option (load_failed_downloads \<circ> snd) (second_run (demo_remote failing_atts) init_state)
     = Some [\<lparr>fd_url = ''u2'', fd_dest = ''S/L/b.png'', fd_error = HTTPError 404, failed_at = 3\<rparr>,
             \<lparr>fd_url = ''u2'', fd_dest = ''S/L/b.png'', fd_error = HTTPError 404, failed_at = 5\<rparr>]"
  by (simp add: counting_demo eval_defs2) (simp add: demo_remote_def eval_defs2)

text \<open>
  C2, amended. If a run reports no task error, then a second run on the same remote side,
  from the state the first one left, ends the same way, requests no file, and leaves the
  files and the three ledger files as they were; when it completes it has counted zero
  downloads.
\<close>

theorem second_run_changes_nothing:
  assumes "main rem w = Some (r, w1)"
    and "\<forall>t e. Error_processing_task t e \<notin> set (events_since w w1)"
  shows "\<exists>w2. main rem w1 = Some (r, w2)
    \<and> files w2 = files w1 \<and> metadata_file w2 = metadata_file w1
    \<and> failed_downloads_file w2 = failed_downloads_file w1
    \<and> processed_tasks_file w2 = processed_tasks_file w1
    \<and> (\<forall>u. File_get u \<notin> set (events_since w1 w2))
    \<and> (r = Inr () \<longrightarrow> total_imgs w2 = 0)"
  using assms(1)
proof (cases rule: main_cases)
  case (abort evs e)
  note we = counting_events [OF abort(1)]
  from abort have "main rem w1 = Some (r, emit evs w1)" by (simp add: main_def)
  moreover have "\<forall>u. File_get u \<notin> set evs" using walker_events(2) [OF we] by blast
  ultimately show ?thesis using abort by simp
next
  case (run evs all_lists)
  note we = counting_events [OF run(1)]
  let ?P = "load_processed_tasks w"
  let ?w0 = "(emit evs w)\<lparr>total_imgs := 0, failed_downloads := 0\<rparr>"
  from process_lists_summary [of rem ?P all_lists ?w0] run(3)
  obtain evs2 where
    1: "trace w1 = trace ?w0 @ evs2"
       "load_processed_tasks ?w0 \<subseteq> load_processed_tasks w1"
       "(\<forall>t e. Error_processing_task t e \<notin> set evs2)
           \<longrightarrow> (\<forall>en \<in> set all_lists. set (snd (snd (snd en))) \<subseteq> ?P \<union> load_processed_tasks w1)"
    by blast
  have "trace w1 = trace w @ (evs @ evs2)" using 1 by simp
  then have "events_since w w1 = evs @ evs2" by (rule events_since_append)
  with assms(2) have "\<forall>t e. Error_processing_task t e \<notin> set evs2" by simp
  moreover have "load_processed_tasks ?w0 = ?P" by (simp add: load_processed_tasks_def)
  ultimately have all: "\<forall>en \<in> set all_lists. set (snd (snd (snd en))) \<subseteq> load_processed_tasks w1"
    using 1 by blast
  let ?w2 = "(emit evs w1)\<lparr>total_imgs := 0, failed_downloads := 0\<rparr>"
  have "main rem w1 = Some (r, ?w2)"
    using run(1,2) process_lists_all_processed [OF all] by (simp add: main_def)
  moreover have "\<forall>u. File_get u \<notin> set evs" using walker_events(2) [OF we] by blast
  moreover have "events_since w1 ?w2 = evs" by (simp add: events_since_def)
  ultimately show ?thesis by simp
qed

theorem second_run_changes_nothing_witness:
  "map_option (load_processed_tasks \<circ> snd) (main (demo_remote handled_atts) init_state)
     = Some {''t2'', ''t1''}
   \<and> map_option (files \<circ> snd) (second_run (demo_remote handled_atts) init_state)
     = map_option (files \<circ> snd) (main (demo_remote handled_atts) init_state)
   \<and> map_option (metadata_file \<circ> snd) (second_run (demo_remote handled_atts) init_state)
     = map_option (metadata_file \<circ> snd) (main (demo_remote handled_atts) init_state)
   \<and> map_option (failed_downloads_file \<circ> snd) (second_run (demo_remote handled_atts) init_state)
     = map_option (failed_downloads_file \<circ> snd) (main (demo_remote handled_atts) init_state)
   \<and> map_option (processed_tasks_file \<circ> snd) (second_run (demo_remote handled_atts) init_state)
     = map_option (processed_tasks_file \<circ> snd) (main (demo_remote handled_atts) init_state)
   \<and> map_option (total_imgs \<circ> snd) (second_run (demo_remote handled_atts) init_state) = Some 0"
proof -
  note h1 = main_handled
  have h2: "\<forall>t e. Error_processing_task t e \<notin> set (events_since init_state after_handled_run)"
    by (simp add: events_since_def init_state_def after_handled_run_def)
  from second_run_changes_nothing [OF h1 h2] obtain w2 where
    "main (demo_remote handled_atts) after_handled_run = Some (Inr (), w2)"
    "files w2 = files after_handled_run"
    "metadata_file w2 = metadata_file after_handled_run"
    "failed_downloads_file w2 = failed_downloads_file after_handled_run"
    "processed_tasks_file w2 = processed_tasks_file after_handled_run"
    "total_imgs w2 = 0"
    by auto
  moreover have "load_processed_tasks after_handled_run = {''t2'', ''t1''}"
    by (simp add: load_processed_tasks_def after_handled_run_def)
  ultimately show ?thesis
    by (simp add: second_run_def h1)
qed

subsection \<open>C3: processed tasks are skipped\<close>

text \<open>
  C3 as stated fails in its last part: the processed tasks are loaded once, when the run
  starts, so a task that the run has just marked is processed again when the listing
  returns its id again. Here the single page lists \<open>t1\<close> twice: the first round marks it, and
  the run requests its detail a second time.
\<close>

theorem marked_task_reprocessed_counterexample:
  "load_processed_tasks (process_task twice_remote ''S'' ''L'' ''t1'' init_state) = {''t1''}
   \<and> map_option (events_since init_state \<circ> snd) (main twice_remote init_state)
     = Some [Api_get Spaces, Api_get (Lists ''1''), Api_get (Folders ''1''), Api_get (Tasks ''10'' 0),
             Api_get (Task ''t1''), Downloading ''a.png'', File_get ''u1'', Sleep, Sleep,
             Api_get (Task ''t1''), Skipping_duplicate ''a.png'', Sleep]"
  by (simp add: counting_twice eval_defs2) (simp add: twice_remote_def demo_remote_def eval_defs2)

text \<open>
  C3, amended. A run that returns requests the detail of no task that is in the
  processed-task set at its start (the attachments of a task are read from its detail
  only), and neither does a later run, on any remote side, from the state it leaves. The
  set only grows: marking a task inserts it, and recording a download, saving the metadata,
  logging a failed download, emitting events, a download, an attachment, a task and a loop
  over tasks remove nothing from it.
\<close>

theorem processed_tasks_not_refetched:
  assumes "main rem w = Some (r, w')"
  shows "(\<forall>t \<in> load_processed_tasks w. Api_get (Task t) \<notin> set (events_since w w'))
    \<and> load_processed_tasks w \<subseteq> load_processed_tasks w'
    \<and> (\<forall>t \<in> load_processed_tasks w. \<forall>rem' r' w''.
          main rem' w' = Some (r', w'') \<longrightarrow> Api_get (Task t) \<notin> set (events_since w' w''))
    \<and> load_processed_tasks (mark_task_processed t v) = insert t (load_processed_tasks v)
    \<and> load_processed_tasks (record_download p u s v) = load_processed_tasks v
    \<and> load_processed_tasks (save_metadata m v) = load_processed_tasks v
    \<and> load_processed_tasks (log_failed_download u p e v) = load_processed_tasks v
    \<and> load_processed_tasks (emit evs v) = load_processed_tasks v
    \<and> load_processed_tasks (snd (download rem u p v)) = load_processed_tasks v
    \<and> load_processed_tasks (snd (process_attachment rem sname lname att v)) = load_processed_tasks v
    \<and> load_processed_tasks v \<subseteq> load_processed_tasks (process_task rem sname lname t v)
    \<and> load_processed_tasks v \<subseteq> load_processed_tasks (process_tasks rem sname lname ts v)"
proof -
  have run: "(\<forall>t \<in> load_processed_tasks w0. Api_get (Task t) \<notin> set (events_since w0 w1))
      \<and> load_processed_tasks w0 \<subseteq> load_processed_tasks w1"
    if m: "main rem0 w0 = Some (r0, w1)" for rem0 w0 r0 w1
    using m
  proof (cases rule: main_cases)
    case (abort evs e)
    from walker_events(1) [OF counting_events [OF abort(1)]] abort(3) show ?thesis by simp
  next
    case (run evs all_lists)
    let ?w1 = "(emit evs w0)\<lparr>total_imgs := 0, failed_downloads := 0\<rparr>"
    from process_lists_summary [of rem0 "load_processed_tasks w0" all_lists ?w1] run(3)
    obtain evs2 where
      1: "trace w1 = trace ?w1 @ evs2"
         "\<forall>t. Api_get (Task t) \<in> set evs2 \<longrightarrow> t \<notin> load_processed_tasks w0"
         "load_processed_tasks ?w1 \<subseteq> load_processed_tasks w1"
      by blast
    have "trace w1 = trace w0 @ (evs @ evs2)" using 1 by simp
    then have "events_since w0 w1 = evs @ evs2" by (rule events_since_append)
    moreover have "load_processed_tasks ?w1 = load_processed_tasks w0"
      by (simp add: load_processed_tasks_def)
    ultimately show ?thesis using 1 walker_events(1) [OF counting_events [OF run(1)]] by auto
  qed
  have later: "\<forall>t \<in> load_processed_tasks w. \<forall>rem' r' w''.
          main rem' w' = Some (r', w'') \<longrightarrow> Api_get (Task t) \<notin> set (events_since w' w'')"
    using run [OF assms] run by blast
  have ops: "load_processed_tasks (mark_task_processed t v) = insert t (load_processed_tasks v)"
    "load_processed_tasks (record_download p u s v) = load_processed_tasks v"
    "load_processed_tasks (save_metadata m v) = load_processed_tasks v"
    "load_processed_tasks (log_failed_download u p e v) = load_processed_tasks v"
    "load_processed_tasks (emit evs v) = load_processed_tasks v"
    "load_processed_tasks (snd (download rem u p v)) = load_processed_tasks v"
    by (simp, simp_all add: load_processed_tasks_def save_metadata_def log_failed_download_def)
  have loop: "load_processed_tasks v \<subseteq> load_processed_tasks (process_task rem sname lname t v)"
    "load_processed_tasks v \<subseteq> load_processed_tasks (process_tasks rem sname lname ts v)"
    using process_task_summary [of rem sname lname t v]
      process_tasks_summary [of rem sname lname ts v] by blast+
  from run [OF assms] later ops loop processed_tasks_process_attachment [of rem sname lname att v]
  show ?thesis by (intro conjI) blast+
qed

theorem processed_tasks_not_refetched_witness:
  "\<exists>w'. main (demo_remote handled_atts) (init_state\<lparr>processed_tasks_file := Valid {''t1''}\<rparr>)
          = Some (Inr (), w')
     \<and> ''t1'' \<in> load_processed_tasks (init_state\<lparr>processed_tasks_file := Valid {''t1''}\<rparr>)
     \<and> Api_get (Task ''t1'') \<notin> set (events_since (init_state\<lparr>processed_tasks_file := Valid {''t1''}\<rparr>) w')
     \<and> ''t1'' \<in> load_processed_tasks w'"
proof -
  let ?w = "init_state\<lparr>processed_tasks_file := Valid {''t1''}\<rparr>"
  have "\<exists>w'. main (demo_remote handled_atts) ?w = Some (Inr (), w')"
    by (simp add: counting_demo eval_defs2)
  then obtain w' where h: "main (demo_remote handled_atts) ?w = Some (Inr (), w')" by blast
  have t: "''t1'' \<in> load_processed_tasks ?w" by (simp add: load_processed_tasks_def)
  from processed_tasks_not_refetched [OF h, THEN conjunct1] t
  have 1: "Api_get (Task ''t1'') \<notin> set (events_since ?w w')"
    by (rule bspec)
  from processed_tasks_not_refetched [OF h, THEN conjunct2, THEN conjunct1] t
  have 2: "''t1'' \<in> load_processed_tasks w'"
    by (rule subsetD)
  from h t 1 2 show ?thesis by blast
qed

subsection \<open>C4: the per-task boundary\<close>



subsection \<open>C5: failed downloads\<close>




subsection \<open>C6: pagination\<close>

text \<open>
  C6. When pages \<open>0\<close> to \<open>n\<close> of a list are returned, none before page \<open>n\<close> is reported
  as last, and page \<open>n\<close> is reported as last or carries no flag, \<^verbatim>\<open>iter_tasks\<close> returns,
  with the tasks of pages \<open>0\<close> to \<open>n\<close> in order, after requesting exactly these \<open>n + 1\<close>
  pages in order, with \<open>n\<close> delays.
\<close>

theorem iter_tasks_pages:
  assumes "\<forall>k \<le> n. get_task_page_r rem list_id k = Inr (pages k)"
    and "\<forall>k < n. last_page (pages k) = Some False"
    and "last_page (pages n) \<noteq> Some False"
  shows "\<exists>evs. iter_tasks rem list_id 0
            = Some (evs, Inr (concat (map (\<lambda>k. get_or_empty (tasks (pages k))) [0..<Suc n])))
          \<and> filter (\<lambda>e. e \<noteq> Sleep) evs = map (\<lambda>k. Api_get (Tasks list_id k)) [0..<Suc n]
          \<and> sleeps evs = n"
  using iter_tasks_from [of 0 n rem list_id pages] assms by simp

theorem iter_tasks_pages_witness:
  "map_option snd (iter_tasks (demo_remote []) ''10'' 0) = Some (Inr [''t1'', ''t2''])
   \<and> map_option (sleeps \<circ> fst) (iter_tasks (demo_remote []) ''10'' 0) = Some 1
   \<and> map_option (filter (\<lambda>e. e \<noteq> Sleep) \<circ> fst) (iter_tasks (demo_remote []) ''10'' 0)
       = Some [Api_get (Tasks ''10'' 0), Api_get (Tasks ''10'' 1)]"
proof -
  have h: "\<forall>k \<le> 1. get_task_page_r (demo_remote []) ''10'' k = Inr (demo_pages k)"
    "\<forall>k < 1. last_page (demo_pages k) = Some False"
    "last_page (demo_pages 1) \<noteq> Some False"
    by (simp_all add: demo_remote_def demo_pages_def)
  from iter_tasks_pages [OF h] obtain evs where
    "iter_tasks (demo_remote []) ''10'' 0
       = Some (evs, Inr (concat (map (\<lambda>k. get_or_empty (tasks (demo_pages k))) [0..<Suc 1])))"
    "filter (\<lambda>e. e \<noteq> Sleep) evs = map (\<lambda>k. Api_get (Tasks ''10'' k)) [0..<Suc 1]"
    "sleeps evs = 1"
    by blast
  then show ?thesis by (simp add: demo_pages_def get_or_empty_def)
qed

subsection \<open>C7: corrupt ledger files\<close>




subsection \<open>C8: the size of a download\<close>

text \<open>
  C8 as stated fails: the expected size is computed from the header and never compared.
  A response that announces 100 bytes and delivers 50 is a successful download.
\<close>

theorem download_size_unverified_counterexample:
  "expected_size_of (Some ''100'') = Inr (Some 100)
   \<and> fst (download (file_remote (ok_response (Some ''100'') [50])) ''u'' ''S/L/a.png'' init_state)
       = Inr True
   \<and> files (snd (download (file_remote (ok_response (Some ''100'') [50])) ''u'' ''S/L/a.png'' init_state))
       ''S/L/a.png'' = Some 50"
  by (simp add: eval_defs2)

text \<open>
  C8, amended. A successful download has written the chunks of the response to the
  destination and recorded, with the URL, the size read back from the file, which is the
  sum of the chunks, whatever the header announced.
\<close>

theorem download_records_actual_size:
  assumes "fst (download rem url dest w) = Inr True"
  shows "\<exists>r. get_file_r rem url = Reply r
           \<and> files (snd (download rem url dest w)) dest = Some (sum_list (chunks r))
           \<and> load_metadata (snd (download rem url dest w)) dest
               = Some \<lparr>si_url = url, si_size = sum_list (chunks r), downloaded_at = clock w\<rparr>"
proof -
  have "fst (download_try rem url dest w) = Inr True \<and> download rem url dest w = download_try rem url dest w"
    using assms by (auto simp: download_eq split: sum.splits if_splits)
  with download_try_success [of rem url dest w True] show ?thesis by simp
qed

theorem download_records_actual_size_witness:
  "fst (download (file_remote (ok_response (Some ''100'') [20, 30])) ''u'' ''S/L/a.png'' init_state) = Inr True
   \<and> load_metadata (snd (download (file_remote (ok_response (Some ''100'') [20, 30])) ''u'' ''S/L/a.png'' init_state))
        ''S/L/a.png'' = Some \<lparr>si_url = ''u'', si_size = 50, downloaded_at = 0\<rparr>"
proof -
  have h: "fst (download (file_remote (ok_response (Some ''100'') [20, 30])) ''u'' ''S/L/a.png'' init_state) = Inr True"
    by (simp add: eval_defs2)
  have g: "get_file_r (file_remote (ok_response (Some ''100'') [20, 30])) ''u''
      = Reply \<lparr>status = 200, content_length = Some ''100'', chunks = [20, 30], stream_error = None\<rparr>"
    "clock init_state = 0"
    by (simp_all add: eval_defs2)
  from download_records_actual_size [OF h] g h show ?thesis by auto
qed

subsection \<open>C9: the rate delay\<close>

text \<open>
  C9 as stated fails: an attachment skipped as a duplicate is followed by no delay. A task
  with one such attachment causes one delay, the one after the task.
\<close>

theorem delay_after_duplicate_counterexample:
  "is_duplicate recorded_state ''S/L/a.png'' ''u1'' None
   \<and> events_since recorded_state (process_task (demo_remote []) ''S'' ''L'' ''t1'' recorded_state)
       = [Api_get (Task ''t1''), Skipping_duplicate ''a.png'', Sleep]"
  by (simp add: eval_defs2) (simp add: demo_remote_def eval_defs2)

text \<open>
  C9, amended. For an image that is not a duplicate, the attachment loop sleeps once when
  the download returns, counted as a success or as a failure, and not when it raises; it
  does not sleep for a duplicate that it skips or for an attachment that is not an image;
  it goes on with the next attachment. \<^verbatim>\<open>process_task\<close> sleeps once more when the \<^verbatim>\<open>try\<close>
  block completes, and not when it raises. So the delays of a task are the downloads that
  returned, as the two counters count them, plus one when the task completed.
\<close>

theorem rate_delay_count:
  "sleeps (events_since w (process_task rem sname lname t w)) + total_imgs w + failed_downloads w
     = total_imgs (process_task rem sname lname t w) + failed_downloads (process_task rem sname lname t w)
       + (case fst (task_try rem sname lname t w) of Inl e \<Rightarrow> 0 | Inr _ \<Rightarrow> 1)
   \<and> (fst (task_try rem sname lname t w) = Inr () \<longrightarrow>
        process_task rem sname lname t w = sleep (snd (task_try rem sname lname t w)))
   \<and> (fst (task_try rem sname lname t w) = Inl e \<longrightarrow>
        process_task rem sname lname t w
          = emit [Error_processing_task t e] (snd (task_try rem sname lname t w)))
   \<and> (is_image att \<and> fname_of att = Some f \<and> att_url att = Some u
        \<and> \<not> is_duplicate w (path_of sname lname f) u None \<longrightarrow>
        process_attachment rem sname lname att w =
          (case download rem u (path_of sname lname f) (emit [Downloading f] w) of
             (Inl e, w1) \<Rightarrow> (Inl e, w1)
           | (Inr b, w1) \<Rightarrow>
               (Inr (), sleep (if b then w1\<lparr>total_imgs := total_imgs w1 + 1\<rparr>
                               else emit [Failed_to_download f]
                                      (w1\<lparr>failed_downloads := failed_downloads w1 + 1\<rparr>))))
        \<and> sleeps (events_since w (snd (process_attachment rem sname lname att w)))
            = (case fst (download rem u (path_of sname lname f) (emit [Downloading f] w)) of
                 Inl e \<Rightarrow> 0 | Inr b \<Rightarrow> 1)
        \<and> total_imgs (snd (process_attachment rem sname lname att w))
            + failed_downloads (snd (process_attachment rem sname lname att w))
            = total_imgs w + failed_downloads w
              + (case fst (download rem u (path_of sname lname f) (emit [Downloading f] w)) of
                   Inl e \<Rightarrow> 0 | Inr b \<Rightarrow> 1))
   \<and> (is_image att \<and> fname_of att = Some f \<and> att_url att = Some u
        \<and> is_duplicate w (path_of sname lname f) u None
        \<longrightarrow> process_attachment rem sname lname att w = (Inr (), emit [Skipping_duplicate f] w)
            \<and> sleeps (events_since w (snd (process_attachment rem sname lname att w))) = 0)
   \<and> (\<not> is_image att \<longrightarrow> process_attachment rem sname lname att w = (Inr (), w))
   \<and> (fst (process_attachment rem sname lname att w) = Inr () \<longrightarrow>
        process_attachments rem sname lname (att # atts) w
          = process_attachments rem sname lname atts (snd (process_attachment rem sname lname att w)))"
proof (intro conjI impI)
  from process_task_inv [of rem sname lname t w] obtain evs where
    1: "trace (process_task rem sname lname t w) = trace w @ Api_get (Task t) # evs"
    and 2: "sleeps evs + total_imgs w + failed_downloads w
         = total_imgs (process_task rem sname lname t w) + failed_downloads (process_task rem sname lname t w)
           + (case fst (task_try rem sname lname t w) of Inl e \<Rightarrow> 0 | Inr _ \<Rightarrow> 1)"
    by blast
  from 1 have "events_since w (process_task rem sname lname t w) = Api_get (Task t) # evs"
    by (rule events_since_append)
  with 2 show "sleeps (events_since w (process_task rem sname lname t w)) + total_imgs w + failed_downloads w
     = total_imgs (process_task rem sname lname t w) + failed_downloads (process_task rem sname lname t w)
       + (case fst (task_try rem sname lname t w) of Inl e \<Rightarrow> 0 | Inr _ \<Rightarrow> 1)"
    by simp
next
  assume "fst (task_try rem sname lname t w) = Inr ()"
  then show "process_task rem sname lname t w = sleep (snd (task_try rem sname lname t w))"
    by (cases "task_try rem sname lname t w") (simp add: process_task_def)
next
  assume "fst (task_try rem sname lname t w) = Inl e"
  then show "process_task rem sname lname t w
          = emit [Error_processing_task t e] (snd (task_try rem sname lname t w))"
    by (cases "task_try rem sname lname t w") (simp add: process_task_def)
next
  assume a: "is_image att \<and> fname_of att = Some f \<and> att_url att = Some u
        \<and> \<not> is_duplicate w (path_of sname lname f) u None"
  let ?d = "download rem u (path_of sname lname f) (emit [Downloading f] w)"
  from a show eq: "process_attachment rem sname lname att w =
          (case ?d of
             (Inl e, w1) \<Rightarrow> (Inl e, w1)
           | (Inr b, w1) \<Rightarrow>
               (Inr (), sleep (if b then w1\<lparr>total_imgs := total_imgs w1 + 1\<rparr>
                               else emit [Failed_to_download f]
                                      (w1\<lparr>failed_downloads := failed_downloads w1 + 1\<rparr>))))"
    by (simp add: process_attachment_download)
  obtain r w1 where d: "?d = (r, w1)" by (cases ?d)
  note dr = download_result [OF d]
  show "sleeps (events_since w (snd (process_attachment rem sname lname att w)))
            = (case fst ?d of Inl e \<Rightarrow> 0 | Inr b \<Rightarrow> 1)"
    unfolding eq using d dr by (cases r) (simp_all add: events_since_def sleep_def)
  show "total_imgs (snd (process_attachment rem sname lname att w))
            + failed_downloads (snd (process_attachment rem sname lname att w))
            = total_imgs w + failed_downloads w
              + (case fst ?d of Inl e \<Rightarrow> 0 | Inr b \<Rightarrow> 1)"
    unfolding eq using d dr by (cases r) (simp_all add: sleep_def)
next
  assume "is_image att \<and> fname_of att = Some f \<and> att_url att = Some u
        \<and> is_duplicate w (path_of sname lname f) u None"
  then show eq: "process_attachment rem sname lname att w = (Inr (), emit [Skipping_duplicate f] w)"
    by (simp add: process_attachment_duplicate)
  show "sleeps (events_since w (snd (process_attachment rem sname lname att w))) = 0"
    unfolding eq by (simp add: events_since_def)
next
  assume "\<not> is_image att"
  then show "process_attachment rem sname lname att w = (Inr (), w)"
    by (simp add: process_attachment_def)
next
  assume "fst (process_attachment rem sname lname att w) = Inr ()"
  then show "process_attachments rem sname lname (att # atts) w
          = process_attachments rem sname lname atts (snd (process_attachment rem sname lname att w))"
    by (rule process_attachments_step)
qed

theorem rate_delay_count_witness:
  "fst (task_try (demo_remote handled_atts) ''S'' ''L'' ''t2'' init_state) = Inr ()
   \<and> fst (download (demo_remote handled_atts) ''u2'' ''S/L/b.png''
            (emit [Downloading ''b.png''] (emit [Api_get (Task ''t2'')] init_state))) = Inr False
   \<and> failed_downloads (process_task (demo_remote handled_atts) ''S'' ''L'' ''t2'' init_state) = 1
   \<and> total_imgs (process_task (demo_remote handled_atts) ''S'' ''L'' ''t2'' init_state) = 0
   \<and> sleeps (events_since init_state (process_task (demo_remote handled_atts) ''S'' ''L'' ''t2'' init_state)) = 2"
proof -
  have h: "fst (task_try (demo_remote handled_atts) ''S'' ''L'' ''t2'' init_state) = Inr ()"
    "failed_downloads (process_task (demo_remote handled_atts) ''S'' ''L'' ''t2'' init_state) = 1"
    "total_imgs (process_task (demo_remote handled_atts) ''S'' ''L'' ''t2'' init_state) = 0"
    "total_imgs init_state = 0" "failed_downloads init_state = 0"
    "fst (download (demo_remote handled_atts) ''u2'' ''S/L/b.png''
            (emit [Downloading ''b.png''] (emit [Api_get (Task ''t2'')] init_state))) = Inr False"
    by (simp_all add: demo_remote_def eval_defs2)
  from rate_delay_count [of init_state "demo_remote handled_atts" "''S''" "''L''" "''t2''",
      THEN conjunct1] h
  show ?thesis by simp
qed

subsection \<open>C10: an expected size of zero\<close>

text \<open>
  C10. \<^verbatim>\<open>is_duplicate\<close> with expected size 0 is \<^verbatim>\<open>is_duplicate\<close> without an expected size,
  which holds exactly when the file exists and the metadata record of the path stores the
  same URL and the size on disk. The attachment loop decides by that alone: it skips the
  attachment in this case and requests the file otherwise.
\<close>

theorem zero_size_is_no_size:
  "is_duplicate w p u (Some 0) = is_duplicate w p u None
   \<and> (is_duplicate w p u None \<longleftrightarrow>
        (\<exists>sz info. files w p = Some sz \<and> load_metadata w p = Some info
           \<and> si_url info = u \<and> si_size info = sz))
   \<and> (is_image att \<and> fname_of att = Some f \<and> att_url att = Some u \<longrightarrow>
        (if \<exists>sz info. files w (path_of sname lname f) = Some sz
              \<and> load_metadata w (path_of sname lname f) = Some info
              \<and> si_url info = u \<and> si_size info = sz
         then process_attachment rem sname lname att w = (Inr (), emit [Skipping_duplicate f] w)
         else File_get u \<in> set (trace (snd (process_attachment rem sname lname att w)))))"
proof (intro conjI impI)
  show "is_duplicate w p u (Some 0) = is_duplicate w p u None"
    by (simp add: is_duplicate_iff)
  show "is_duplicate w p u None \<longleftrightarrow>
        (\<exists>sz info. files w p = Some sz \<and> load_metadata w p = Some info
           \<and> si_url info = u \<and> si_size info = sz)"
    by (simp add: is_duplicate_iff)
  assume a: "is_image att \<and> fname_of att = Some f \<and> att_url att = Some u"
  let ?path = "path_of sname lname f"
  show "if \<exists>sz info. files w ?path = Some sz \<and> load_metadata w ?path = Some info
              \<and> si_url info = u \<and> si_size info = sz
         then process_attachment rem sname lname att w = (Inr (), emit [Skipping_duplicate f] w)
         else File_get u \<in> set (trace (snd (process_attachment rem sname lname att w)))"
  proof (cases "is_duplicate w ?path u None")
    case True
    with a have "process_attachment rem sname lname att w = (Inr (), emit [Skipping_duplicate f] w)"
      by (simp add: process_attachment_def)
    with True show ?thesis unfolding is_duplicate_iff by auto
  next
    case False
    obtain r w1 where d: "download rem u ?path (emit [Downloading f] w) = (r, w1)"
      by (cases "download rem u ?path (emit [Downloading f] w)")
    from download_result [OF d] have "File_get u \<in> set (trace w1)" by simp
    then have "File_get u \<in> set (trace (snd (process_attachment rem sname lname att w)))"
      using a False d by (cases r) (simp_all add: process_attachment_def sleep_def)
    with False show ?thesis unfolding is_duplicate_iff by auto
  qed
qed

theorem zero_size_is_no_size_witness:
  "is_duplicate recorded_state ''S/L/a.png'' ''u1'' (Some 0)
   \<and> is_duplicate recorded_state ''S/L/a.png'' ''u1'' None
   \<and> process_attachment (demo_remote []) ''S'' ''L'' (image ''a.png'' (Some ''u1'')) recorded_state
       = (Inr (), emit [Skipping_duplicate ''a.png''] recorded_state)"
proof -
  have h: "is_image (image ''a.png'' (Some ''u1'')) \<and> fname_of (image ''a.png'' (Some ''u1'')) = Some ''a.png''
      \<and> att_url (image ''a.png'' (Some ''u1'')) = Some ''u1''"
    by (simp add: is_image_def fname_of_def image_def)
  have f: "files recorded_state (path_of ''S'' ''L'' ''a.png'') = Some 3"
    "load_metadata recorded_state (path_of ''S'' ''L'' ''a.png'')
       = Some \<lparr>si_url = ''u1'', si_size = 3, downloaded_at = 0\<rparr>"
    by (simp_all add: eval_defs2)
  have p: "path_of ''S'' ''L'' ''a.png'' = ''S/L/a.png''" by (simp add: path_of_def)
  from zero_size_is_no_size [of recorded_state "''S/L/a.png''" "''u1''" "image ''a.png'' (Some ''u1'')"
      "''a.png''" "''S''" "''L''" "demo_remote []"] h f
  show ?thesis by (simp add: p)
qed

end
